theory Spec2Isabelle
  imports Complex_Main
begin

section \<open>Strings as the classifier uses them\<close>

text \<open>
  A JavaScript string is modelled as a \<open>string\<close> (a list of characters). The model
  covers ASCII text: \<open>toLowerCase\<close> maps \<open>A\<close>..\<open>Z\<close> to \<open>a\<close>..\<open>z\<close> and leaves every other
  character alone, and the word characters of a regular expression are the letters,
  the digits and the underscore.
\<close>

definition toLowerChar :: "char \<Rightarrow> char" where
  "toLowerChar c =
     (case map_of (zip ''ABCDEFGHIJKLMNOPQRSTUVWXYZ'' ''abcdefghijklmnopqrstuvwxyz'') c of
        Some d \<Rightarrow> d
      | None \<Rightarrow> c)"

definition toLowerCase :: "string \<Rightarrow> string" where
  "toLowerCase s = map toLowerChar s"

fun startsWith :: "string \<Rightarrow> string \<Rightarrow> bool" where
  "startsWith s [] = True"
| "startsWith [] (p # ps) = False"
| "startsWith (c # cs) (p # ps) = (c = p \<and> startsWith cs ps)"

text \<open>\<open>s.includes(sub)\<close>: \<open>sub\<close> occurs in \<open>s\<close> as a contiguous run of characters.\<close>

fun js_includes :: "string \<Rightarrow> string \<Rightarrow> bool" where
  "js_includes [] sub = (sub = [])"
| "js_includes (c # cs) sub = (startsWith (c # cs) sub \<or> js_includes cs sub)"

text \<open>\<open>s.split(sep)\<close> and \<open>parts.join(sep)\<close> for a separator of one character, and
  \<open>xs.slice(-n)\<close>.\<close>

fun js_split :: "char \<Rightarrow> string \<Rightarrow> string list" where
  "js_split sep [] = [[]]"
| "js_split sep (c # cs) =
     (if c = sep then [] # js_split sep cs
      else (case js_split sep cs of
              p # ps \<Rightarrow> (c # p) # ps
            | [] \<Rightarrow> [[c]]))"

fun js_join :: "char \<Rightarrow> string list \<Rightarrow> string" where
  "js_join sep [] = []"
| "js_join sep [p] = p"
| "js_join sep (p # q # ps) = p @ sep # js_join sep (q # ps)"

definition sliceLast :: "nat \<Rightarrow> 'a list \<Rightarrow> 'a list" where
  "sliceLast n xs = drop (length xs - n) xs"

subsection \<open>The regular expression \<open>\bkeyword\b\<close> with flag \<open>i\<close>\<close>

definition isWordChar :: "char \<Rightarrow> bool" where
  "isWordChar c =
     (c \<in> set ''abcdefghijklmnopqrstuvwxyzABCDEFGHIJKLMNOPQRSTUVWXYZ0123456789_'')"

fun isWordOpt :: "char option \<Rightarrow> bool" where
  "isWordOpt None = False"
| "isWordOpt (Some c) = isWordChar c"

text \<open>\<open>\b\<close> holds between two positions when exactly one of them holds a word
  character; the position before the start and the one after the end hold none.\<close>

definition isBoundary :: "char option \<Rightarrow> char option \<Rightarrow> bool" where
  "isBoundary a b = (isWordOpt a \<noteq> isWordOpt b)"

fun headOpt :: "string \<Rightarrow> char option" where
  "headOpt [] = None"
| "headOpt (c # cs) = Some c"

fun lastOpt :: "string \<Rightarrow> char option" where
  "lastOpt [] = None"
| "lastOpt (c # cs) = (if cs = [] then Some c else lastOpt cs)"

text \<open>The pattern matches where \<open>rest\<close> starts, \<open>prev\<close> being the character before.\<close>

definition regexMatchHere :: "char option \<Rightarrow> string \<Rightarrow> string \<Rightarrow> bool" where
  "regexMatchHere prev rest keyword =
     (startsWith (toLowerCase rest) (toLowerCase keyword)
      \<and> isBoundary prev (headOpt rest)
      \<and> isBoundary (if keyword = [] then prev else lastOpt (take (length keyword) rest))
           (headOpt (drop (length keyword) rest)))"

fun regexScan :: "char option \<Rightarrow> string \<Rightarrow> string \<Rightarrow> bool" where
  "regexScan prev [] keyword = regexMatchHere prev [] keyword"
| "regexScan prev (c # cs) keyword =
     (regexMatchHere prev (c # cs) keyword \<or> regexScan (Some c) cs keyword)"

text \<open>\<open>new RegExp(`\\b${keyword}\\b`, 'i').test(query)\<close>\<close>

definition wholeWordTest :: "string \<Rightarrow> string \<Rightarrow> bool" where
  "wholeWordTest keyword query = regexScan None query keyword"

section \<open>The intent classifier: \<open>classifyUserQuery\<close>\<close>

text \<open>
  The confidence is a JavaScript number, the quotient of two small naturals. It is
  modelled by the exact rational: the quotients compared here have numerators up to 20
  and denominators up to 10, so two of them are equal, or ordered, as doubles exactly
  when they are as rationals.
\<close>

record classification =
  intent :: string
  confidence :: rat
  apis :: "string list"
  isComplex :: "bool option"
  isGeneralOverview :: bool

definition standardApis :: "string list" where
  "standardApis = [''planetary-positions'', ''basic-astro-details'']"

text \<open>The table \<open>intents\<close>, in the order of its keys: name, keywords, apis.\<close>

definition intents :: "(string \<times> string list \<times> string list) list" where
  "intents =
    [(''marriage'',
        [''marry'', ''marriage'', ''wedding'', ''spouse'', ''partner'', ''husband'', ''wife'',
         ''relationship'', ''shaadi'', ''vivah''], standardApis),
     (''career'',
        [''career'', ''job'', ''work'', ''profession'', ''business'', ''success'', ''promotion'',
         ''office'', ''naukri''], standardApis),
     (''money'',
        [''money'', ''wealth'', ''finance'', ''income'', ''salary'', ''profit'', ''rich'',
         ''financial'', ''dhan'', ''paisa''], standardApis),
     (''health'',
        [''health'', ''disease'', ''illness'', ''fitness'', ''medical'', ''body'', ''pain'',
         ''healing'', ''swasthya''], standardApis),
     (''love'',
        [''love'', ''romance'', ''dating'', ''boyfriend'', ''girlfriend'', ''crush'',
         ''attraction'', ''pyaar''], standardApis),
     (''family'',
        [''family'', ''father'', ''mother'', ''brother'', ''sister'', ''children'', ''kids'',
         ''parents'', ''parivar''], standardApis),
     (''general'',
        [''life'', ''future'', ''destiny'', ''general'', ''overall'', ''horoscope'', ''kundli'',
         ''jyotish''], standardApis)]"

text \<open>The body of \<open>keywords.forEach\<close>: the accumulator is \<open>(totalScore, matches)\<close>.\<close>

definition scoreKeyword :: "string \<Rightarrow> string \<Rightarrow> nat \<times> nat \<Rightarrow> nat \<times> nat" where
  "scoreKeyword query keyword acc =
     (case acc of (totalScore, matches) \<Rightarrow>
        if js_includes (toLowerCase query) keyword
        then (if wholeWordTest keyword query
              then (totalScore + 2, matches + 1)
              else (totalScore + 1, matches + 1))
        else (totalScore, matches))"

definition intentConfidence :: "string \<Rightarrow> string list \<Rightarrow> rat" where
  "intentConfidence query keywords =
     (case fold (scoreKeyword query) keywords (0, 0) of (totalScore, matches) \<Rightarrow>
        if matches > 0 then of_nat totalScore / of_nat (length keywords) else 0)"

text \<open>The second \<open>forEach\<close>: the accumulator is \<open>(bestIntent, highestConfidence)\<close>.\<close>

definition pickBetter :: "string \<times> rat \<Rightarrow> string \<times> rat \<Rightarrow> string \<times> rat" where
  "pickBetter entry acc =
     (case entry of (name, conf) \<Rightarrow>
        case acc of (bestIntent, highestConfidence) \<Rightarrow>
          if conf > highestConfidence then (name, conf) else (bestIntent, highestConfidence))"

definition scoredIntents :: "string \<Rightarrow> (string \<times> rat) list" where
  "scoredIntents query =
     map (\<lambda>(name, keywords, a). (name, intentConfidence query keywords)) intents"

definition apisOf :: "string \<Rightarrow> string list" where
  "apisOf name =
     (case map_of intents name of Some (keywords, a) \<Rightarrow> a | None \<Rightarrow> [])"

definition isOverviewRequest :: "string \<Rightarrow> bool" where
  "isOverviewRequest query =
     (js_includes (toLowerCase query) ''general''
      \<and> (js_includes (toLowerCase query) ''overview''
           \<or> js_includes (toLowerCase query) ''reading''))"

definition classifyUserQuery :: "string \<Rightarrow> classification" where
  "classifyUserQuery query =
     (if isOverviewRequest query
      then \<lparr>intent = ''general_overview'', confidence = 1, apis = standardApis,
            isComplex = None, isGeneralOverview = True\<rparr>
      else (case fold pickBetter (scoredIntents query) (''general'', 0) of
              (bestIntent, highestConfidence) \<Rightarrow>
                \<lparr>intent = bestIntent, confidence = highestConfidence,
                 apis = apisOf bestIntent,
                 isComplex = Some (length (js_split CHR '' '' query) > 10),
                 isGeneralOverview = False\<rparr>))"


subsection \<open>The classifier as the specification words it\<close>

text \<open>
  A keyword present as a substring weighs 2 when it also matches as a whole word and 1
  otherwise; an intent's score is the sum of the weights over the length of its keyword
  list; the choice is the first intent of the table with the highest score, and
  \<open>general\<close> with confidence 0 when every score is 0.

  Both tests are stated without the code's scanning functions. A keyword is present
  when it occurs in the lower-cased text. It matches as a whole word when the text has
  an occurrence of it, letter case apart, with no word character right before and none
  right after.
\<close>

definition spec_contains :: "string \<Rightarrow> string \<Rightarrow> bool" where
  "spec_contains query keyword = (\<exists>ps ss. toLowerCase query = ps @ keyword @ ss)"

definition spec_wholeWord :: "string \<Rightarrow> string \<Rightarrow> bool" where
  "spec_wholeWord query keyword =
     (\<exists>ps w ss. query = ps @ w @ ss \<and> toLowerCase w = toLowerCase keyword
        \<and> (ps = [] \<or> \<not> isWordChar (last ps))
        \<and> (ss = [] \<or> \<not> isWordChar (hd ss)))"

definition spec_weight :: "string \<Rightarrow> string \<Rightarrow> nat" where
  "spec_weight query keyword =
     (if spec_contains query keyword
      then (if spec_wholeWord query keyword then 2 else 1)
      else 0)"

text \<open>A keyword that starts and ends with a word character, as every keyword of the
  table does: for these \<open>\b\<close> on either side means that no word character adjoins.\<close>

definition wordKeyword :: "string \<Rightarrow> bool" where
  "wordKeyword keyword =
     (keyword \<noteq> [] \<and> isWordChar (hd keyword) \<and> isWordChar (last keyword))"

definition spec_score :: "string \<Rightarrow> string list \<Rightarrow> rat" where
  "spec_score query keywords =
     of_nat (sum_list (map (spec_weight query) keywords)) / of_nat (length keywords)"

definition spec_scores :: "string \<Rightarrow> (string \<times> rat) list" where
  "spec_scores query =
     map (\<lambda>(name, keywords, a). (name, spec_score query keywords)) intents"

definition spec_choice :: "(string \<times> rat) list \<Rightarrow> string \<times> rat" where
  "spec_choice scored =
     (if list_all (\<lambda>e. snd e = 0) scored then (''general'', 0)
      else (case find (\<lambda>e. list_all (\<lambda>e'. snd e' \<le> snd e) scored) scored of
              Some e \<Rightarrow> e
            | None \<Rightarrow> (''general'', 0)))"

definition noKeywordMatches :: "string \<Rightarrow> bool" where
  "noKeywordMatches query =
     list_all (\<lambda>(name, keywords, a).
        list_all (\<lambda>keyword. \<not> spec_contains query keyword) keywords) intents"

section \<open>The stores of \<open>server.js\<close>\<close>

text \<open>
  \<open>users\<close>, \<open>sessions\<close>, \<open>astroCache\<close> and \<open>userStates\<close> are the four \<open>Map\<close>s of the
  process. A field a JavaScript object may lack is an option, except
  \<open>hasReceivedOverview\<close>, which the code only tests for truth: a state without it
  reads \<open>False\<close>. Counters and clock readings are naturals.
\<close>

record userState =
  freeQuestionsUsed :: nat
  isPremium :: bool
  totalQuestions :: nat
  hasReceivedOverview :: bool
  planType :: "string option"
  remainingQuestions :: "nat option"
  purchaseDate :: "nat option"
  paymentId :: "string option"

definition defaultUserState :: userState where
  "defaultUserState =
     \<lparr>freeQuestionsUsed = 0, isPremium = False, totalQuestions = 0,
      hasReceivedOverview = False, planType = None, remainingQuestions = None,
      purchaseDate = None, paymentId = None\<rparr>"

record user =
  fullName :: string
  gender :: string
  birthDate :: string
  birthTime :: string
  birthPlace :: string

record messageEntry =
  m_user :: string
  m_bot :: string
  m_timestamp :: nat
  m_classification :: string
  m_confidence :: rat
  m_isGeneralOverview :: bool

record session =
  messages :: "messageEntry list"
  contextText :: string
  startTime :: nat
  queryCount :: nat
  lastActivity :: "nat option"

text \<open>
  What the POST to the provider does for one endpoint: a response with an ok status and
  its parsed body; a response with another status, with its status, status text and body
  text; or a thrown error with its message (no connection, a body that is not JSON).
\<close>

datatype httpResult = HttpOk string | HttpNotOk nat string string | HttpThrows string

text \<open>
  What \<open>fetchAstrologyData\<close> records for one endpoint: the data; the marker
  \<open>{error: true, status, message, details}\<close> of a response that is not ok, kept as status,
  status text and details; or the marker \<open>{error: true, message, fallback: true}\<close> of a
  thrown error, kept as the error's message.
\<close>

datatype endpointResult =
    EndpointData string
  | EndpointApiError nat string string
  | EndpointNetworkError string

fun isOkResponse :: "httpResult \<Rightarrow> bool" where
  "isOkResponse (HttpOk body) = True"
| "isOkResponse (HttpNotOk status statusText errorText) = False"
| "isOkResponse (HttpThrows msg) = False"

fun isErrorResult :: "endpointResult \<Rightarrow> bool" where
  "isErrorResult (EndpointData d) = False"
| "isErrorResult (EndpointApiError status statusText details) = True"
| "isErrorResult (EndpointNetworkError msg) = True"

text \<open>The object \<open>results\<close>: one result per endpoint name.\<close>

type_synonym astroData = "(string \<times> endpointResult) list"

record cacheEntry =
  c_data :: astroData
  c_timestamp :: nat
  c_cacheKey :: "string option"
  c_error :: bool
  c_fallback :: bool

text \<open>
  Besides the four maps the state counts the calls made to the two collaborators, so
  that "no call is made" is a statement about the state.
\<close>

record server =
  users :: "string \<rightharpoonup> user"
  sessions :: "string \<rightharpoonup> session"
  astroCache :: "string \<rightharpoonup> cacheEntry"
  userStates :: "string \<rightharpoonup> userState"
  fetchCalls :: nat
  generationCalls :: nat

definition initialServer :: server where
  "initialServer =
     \<lparr>users = Map.empty, sessions = Map.empty, astroCache = Map.empty,
      userStates = Map.empty, fetchCalls = 0, generationCalls = 0\<rparr>"

text \<open>
  What \<open>processQuery\<close> interpolates into the prompt context. Rendering it to text is
  left to the generation collaborator, which receives these values.
\<close>

record promptContext =
  pc_user :: user
  pc_queryCount :: nat
  pc_isPremium :: bool
  pc_totalQuestions :: nat
  pc_astroData :: astroData
  pc_history :: string
  pc_classification :: classification

text \<open>
  The collaborators of one request: the clock, the provider's HTTP endpoint that
  \<open>fetchAstrologyData\<close> posts to, and \<open>getClaudeResponse\<close>. A rejected promise is \<open>Inl\<close>
  of the error's message.
\<close>

record env =
  now :: nat
  divineApi :: "user \<Rightarrow> string \<Rightarrow> httpResult"
  getClaudeResponse :: "string \<Rightarrow> promptContext \<Rightarrow> bool \<Rightarrow> string + string"

definition newline :: char where
  "newline = CHR 0x0A"

definition usageOf :: "server \<Rightarrow> string \<Rightarrow> userState" where
  "usageOf s userId =
     (case userStates s userId of Some u \<Rightarrow> u | None \<Rightarrow> defaultUserState)"

section \<open>\<open>fetchAstrologyData\<close>\<close>

definition truncateDetails :: "string \<Rightarrow> string" where
  "truncateDetails errorText =
     (if length errorText > 200 then take 200 errorText @ ''...'' else errorText)"

fun endpointResultOf :: "httpResult \<Rightarrow> endpointResult" where
  "endpointResultOf (HttpOk body) = EndpointData body"
| "endpointResultOf (HttpNotOk status statusText errorText) =
     EndpointApiError status statusText (truncateDetails errorText)"
| "endpointResultOf (HttpThrows msg) = EndpointNetworkError msg"

text \<open>\<open>results[endpoint] = value\<close>\<close>

definition putResult :: "string \<Rightarrow> endpointResult \<Rightarrow> astroData \<Rightarrow> astroData" where
  "putResult endpoint v results =
     (case map_of results endpoint of
        None \<Rightarrow> results @ [(endpoint, v)]
      | Some old \<Rightarrow> map (\<lambda>(k, x). if k = endpoint then (k, v) else (k, x)) results)"

definition fetchResults :: "env \<Rightarrow> user \<Rightarrow> string list \<Rightarrow> astroData" where
  "fetchResults e birthData apiEndpoints =
     fold (\<lambda>endpoint results.
             putResult endpoint (endpointResultOf (divineApi e birthData endpoint)) results)
       apiEndpoints []"

text \<open>
  Lines 120 to 198. Every statement of the loop that can throw stands inside its \<open>try\<close>,
  whose \<open>catch\<close> records a marker for the endpoint and goes on, so the promise never
  rejects: the result is always \<open>Inr\<close>. The type keeps the \<open>Inl\<close> that the \<open>catch\<close> of
  \<open>processQuery\<close> is written for.
\<close>

definition fetchAstrologyData :: "env \<Rightarrow> user \<Rightarrow> string list \<Rightarrow> string + astroData" where
  "fetchAstrologyData e birthData apiEndpoints = Inr (fetchResults e birthData apiEndpoints)"

section \<open>\<open>processQuery\<close>\<close>

subsection \<open>The cache block\<close>

definition cacheExpiry :: int where
  "cacheExpiry = 3600000"

definition needsFreshData :: "env \<Rightarrow> cacheEntry option \<Rightarrow> bool" where
  "needsFreshData e cached =
     (case cached of
        None \<Rightarrow> True
      | Some a \<Rightarrow> int (now e) - int (c_timestamp a) > cacheExpiry)"

definition degradedEntry :: "env \<Rightarrow> cacheEntry" where
  "degradedEntry e =
     \<lparr>c_data = [], c_timestamp = now e, c_cacheKey = None, c_error = True,
      c_fallback = True\<rparr>"

text \<open>The entry that line 469 builds from a resolved fetch.\<close>

definition freshEntry :: "env \<Rightarrow> user \<Rightarrow> string \<Rightarrow> string list \<Rightarrow> cacheEntry" where
  "freshEntry e u cacheKey endpoints =
     \<lparr>c_data = fetchResults e u endpoints, c_timestamp = now e, c_cacheKey = Some cacheKey,
      c_error = False, c_fallback = False\<rparr>"

text \<open>
  Lines 459 to 488: the entry the request goes on with and the state after the block. Only
  the branch of a resolved fetch calls \<open>astroCache.set\<close>; the \<open>catch\<close> branch is written as
  the source has it, and \<open>fetchAstrologyData\<close> never takes it. The last case of the
  definition is there for totality: a missing entry always needs fresh data.
\<close>

definition resolveAstroData ::
  "env \<Rightarrow> user \<Rightarrow> string \<Rightarrow> string list \<Rightarrow> server \<Rightarrow> cacheEntry \<times> server" where
  "resolveAstroData e u cacheKey endpoints s =
     (let cached = astroCache s cacheKey in
      if needsFreshData e cached
      then (let s1 = s\<lparr>fetchCalls := fetchCalls s + 1\<rparr> in
            case fetchAstrologyData e u endpoints of
              Inr freshData \<Rightarrow>
                (let astro = \<lparr>c_data = freshData, c_timestamp = now e,
                              c_cacheKey = Some cacheKey, c_error = False,
                              c_fallback = False\<rparr>
                 in (astro, s1\<lparr>astroCache := (astroCache s1)(cacheKey \<mapsto> astro)\<rparr>))
            | Inl err \<Rightarrow>
                (case cached of
                   None \<Rightarrow> (degradedEntry e, s1)
                 | Some a \<Rightarrow> (a, s1)))
      else (case cached of
              Some a \<Rightarrow> (a, s)
            | None \<Rightarrow> (degradedEntry e, s)))"

subsection \<open>The session update\<close>

text \<open>Lines 527 to 545: the exchange is appended, then both windows are cut.\<close>

definition recordExchange ::
  "nat \<Rightarrow> string \<Rightarrow> string \<Rightarrow> classification \<Rightarrow> session \<Rightarrow> session" where
  "recordExchange t message response cl ses =
     (let messageEntry = \<lparr>m_user = message, m_bot = response, m_timestamp = t,
                          m_classification = intent cl, m_confidence = confidence cl,
                          m_isGeneralOverview = isGeneralOverview cl\<rparr>;
          ses1 = ses\<lparr>messages := messages ses @ [messageEntry],
                     contextText := contextText ses @ ''User: '' @ message @ [newline]
                                      @ ''Bot: '' @ response @ [newline],
                     lastActivity := Some t\<rparr>
      in if length (messages ses1) > 10
         then ses1\<lparr>messages := sliceLast 10 (messages ses1),
                    contextText :=
                      js_join newline (sliceLast 20 (js_split newline (contextText ses1)))\<rparr>
         else ses1)"

subsection \<open>The whole function\<close>

definition newSession :: "env \<Rightarrow> session" where
  "newSession e =
     \<lparr>messages = [], contextText = [], startTime = now e, queryCount = 0,
      lastActivity = None\<rparr>"

text \<open>
  An object read from a \<open>Map\<close> is shared with it, so \<open>session.queryCount++\<close> and
  \<open>userState.totalQuestions++\<close> change the stored object at once when there is one; a
  default object made by \<open>||\<close> reaches its store only through \<open>set\<close>, after the
  generation call. The result is the response text, or \<open>Inl\<close> of the thrown error's
  message.
\<close>

definition processQuery ::
  "env \<Rightarrow> string \<Rightarrow> string \<Rightarrow> string \<Rightarrow> server \<Rightarrow> (string + string) \<times> server" where
  "processQuery e userId message sessionId s =
     (case users s userId of
        None \<Rightarrow> (Inl ''User not found'', s)
      | Some u \<Rightarrow>
         (let userState = (usageOf s userId)
                \<lparr>totalQuestions := totalQuestions (usageOf s userId) + 1\<rparr>;
              ses0 = (case sessions s sessionId of Some x \<Rightarrow> x | None \<Rightarrow> newSession e);
              ses = ses0\<lparr>queryCount := queryCount ses0 + 1\<rparr>;
              s1 = s\<lparr>sessions := (if sessions s sessionId = None then sessions s
                                    else (sessions s)(sessionId \<mapsto> ses)),
                      userStates := (if userStates s userId = None then userStates s
                                      else (userStates s)(userId \<mapsto> userState))\<rparr>;
              cl = classifyUserQuery message;
              cacheKey = userId @ ''_'' @ js_join CHR ''_'' (apis cl);
              (astro, s2) = resolveAstroData e u cacheKey (apis cl) s1;
              ctx = \<lparr>pc_user = u, pc_queryCount = queryCount ses,
                     pc_isPremium = isPremium userState,
                     pc_totalQuestions = totalQuestions userState,
                     pc_astroData = c_data astro,
                     pc_history =
                       js_join newline (sliceLast 6 (js_split newline (contextText ses))),
                     pc_classification = cl\<rparr>;
              s3 = s2\<lparr>generationCalls := generationCalls s2 + 1\<rparr>
          in case getClaudeResponse e message ctx (isGeneralOverview cl) of
               Inl err \<Rightarrow> (Inl err, s3)
             | Inr response \<Rightarrow>
                 (Inr response,
                  s3\<lparr>sessions :=
                       (sessions s3)(sessionId \<mapsto> recordExchange (now e) message response cl ses),
                     userStates := (userStates s3)(userId \<mapsto> userState)\<rparr>)))"

section \<open>The route \<open>POST /api/chat/message\<close>\<close>

text \<open>\<open>trim\<close> in the ASCII scope of this model: the six ASCII white-space characters.
  (JavaScript also strips U+00A0 and the other Unicode white space.)\<close>

definition isSpace :: "char \<Rightarrow> bool" where
  "isSpace c = (c \<in> set [CHR '' '', CHR 0x09, CHR 0x0A, CHR 0x0B, CHR 0x0C, CHR 0x0D])"

definition js_trim :: "string \<Rightarrow> string" where
  "js_trim s = rev (dropWhile isSpace (rev (dropWhile isSpace s)))"

text \<open>A field the body lacks is the empty string: both are falsy.\<close>

record chatRequest =
  req_userId :: string
  req_sessionId :: string
  req_message :: string

datatype chatResponse =
    BadRequest string
  | PaymentRequired nat bool
  | ChatOk string nat bool bool
  | ServerError string

definition validChatRequest :: "chatRequest \<Rightarrow> bool" where
  "validChatRequest req =
     (req_userId req \<noteq> [] \<and> req_sessionId req \<noteq> [] \<and> req_message req \<noteq> []
      \<and> length (js_trim (req_message req)) \<noteq> 0
      \<and> \<not> length (req_message req) > 1000)"

text \<open>\<open>classification.isGeneralOverview && !userState.hasReceivedOverview\<close>\<close>

definition firstOverview :: "server \<Rightarrow> chatRequest \<Rightarrow> bool" where
  "firstOverview s req =
     (isGeneralOverview (classifyUserQuery (js_trim (req_message req)))
      \<and> \<not> hasReceivedOverview (usageOf s (req_userId req)))"

text \<open>Lines 1417 to 1449: the call of \<open>processQuery\<close>, its answer and the \<open>catch\<close>.\<close>

definition answerChat :: "env \<Rightarrow> chatRequest \<Rightarrow> userState \<Rightarrow> server \<Rightarrow> chatResponse \<times> server" where
  "answerChat e req userState s =
     (case processQuery e (req_userId req) (js_trim (req_message req)) (req_sessionId req) s of
        (Inl err, s') \<Rightarrow> (ServerError err, s')
      | (Inr response, s') \<Rightarrow>
          (ChatOk response (freeQuestionsUsed userState) (isPremium userState)
             (hasReceivedOverview userState), s'))"

definition chatMessage :: "env \<Rightarrow> chatRequest \<Rightarrow> server \<Rightarrow> chatResponse \<times> server" where
  "chatMessage e req s =
     (if req_userId req = [] \<or> req_sessionId req = [] \<or> req_message req = []
      then (BadRequest ''Missing required fields: userId, sessionId, and message are required'', s)
      else if length (js_trim (req_message req)) = 0
      then (BadRequest ''Message cannot be empty'', s)
      else if length (req_message req) > 1000
      then (BadRequest ''Message too long. Please keep it under 1000 characters.'', s)
      else
        (let userId = req_userId req;
             userState = usageOf s userId
         in if firstOverview s req
            then (let userState1 = userState\<lparr>hasReceivedOverview := True\<rparr>
                  in answerChat e req userState1
                       (s\<lparr>userStates := (userStates s)(userId \<mapsto> userState1)\<rparr>))
            else if \<not> isPremium userState \<and> freeQuestionsUsed userState \<ge> 10
            then (PaymentRequired (freeQuestionsUsed userState) (isPremium userState), s)
            else if \<not> isPremium userState
            then (let userState1 =
                        userState\<lparr>freeQuestionsUsed := freeQuestionsUsed userState + 1\<rparr>
                  in answerChat e req userState1
                       (s\<lparr>userStates := (userStates s)(userId \<mapsto> userState1)\<rparr>))
            else answerChat e req userState s))"


section \<open>\<open>PaymentService\<close>\<close>

record plan =
  questions :: nat
  price :: nat
  planName :: string

text \<open>
  The \<open>errorData\<close> a failure report carries: \<open>undefined\<close> or \<open>null\<close>, or any other value
  together with what its property \<open>description\<close> reads (\<open>None\<close> when it reads
  \<open>undefined\<close>).
\<close>

datatype errorData = Nullish | ErrorInfo "string option"

record order =
  o_id :: string
  o_amount :: nat
  o_currency :: string
  o_userId :: string
  o_planType :: string
  o_plan :: plan
  o_status :: string
  o_paymentId :: "string option"
  o_error :: "errorData option"
  o_failedAt :: "nat option"

record payment =
  p_id :: string
  p_orderId :: string
  p_amount :: nat
  p_currency :: string
  p_status :: string
  p_method :: string
  p_userId :: string
  p_planType :: string
  p_plan :: plan
  p_createdAt :: nat
  p_verifiedAt :: nat

record paymentService =
  orders :: "string \<rightharpoonup> order"
  payments :: "string \<rightharpoonup> payment"
  keySecret :: string

text \<open>The three fields of the verification payload; an absent one is the empty string.\<close>

record paymentData =
  razorpay_order_id :: string
  razorpay_payment_id :: string
  razorpay_signature :: string

text \<open>
  The errors \<open>verifyPayment\<close> throws, each wrapped by its \<open>catch\<close> into
  \<open>Payment verification failed: ...\<close>: \<open>Missing payment verification data\<close>,
  \<open>Order not found\<close> and \<open>Invalid payment signature\<close>.
\<close>

datatype paymentError = MissingVerificationData | OrderNotFound | InvalidSignature

text \<open>
  \<open>crypto.createHmac('sha256', key).update(text).digest('hex')\<close> is a parameter
  \<open>hmac key text\<close> of the model.
\<close>

definition verifyPayment ::
  "(string \<Rightarrow> string \<Rightarrow> string) \<Rightarrow> nat \<Rightarrow> paymentData \<Rightarrow> paymentService
     \<Rightarrow> (paymentError + payment \<times> order) \<times> paymentService" where
  "verifyPayment hmac t pd ps =
     (if razorpay_order_id pd = [] \<or> razorpay_payment_id pd = [] \<or> razorpay_signature pd = []
      then (Inl MissingVerificationData, ps)
      else case orders ps (razorpay_order_id pd) of
        None \<Rightarrow> (Inl OrderNotFound, ps)
      | Some ord \<Rightarrow>
         (let generated_signature =
                hmac (keySecret ps) (razorpay_order_id pd @ ''|'' @ razorpay_payment_id pd)
          in if generated_signature \<noteq> razorpay_signature pd
             then (Inl InvalidSignature, ps)
             else
               (let paymentRecord =
                      \<lparr>p_id = razorpay_payment_id pd, p_orderId = razorpay_order_id pd,
                       p_amount = o_amount ord, p_currency = o_currency ord,
                       p_status = ''captured'', p_method = ''card'',
                       p_userId = o_userId ord, p_planType = o_planType ord,
                       p_plan = o_plan ord, p_createdAt = t, p_verifiedAt = t\<rparr>;
                    ord1 = ord\<lparr>o_status := ''paid'',
                               o_paymentId := Some (razorpay_payment_id pd)\<rparr>
                in (Inr (paymentRecord, ord1),
                    ps\<lparr>payments := (payments ps)(razorpay_payment_id pd \<mapsto> paymentRecord),
                       orders := (orders ps)(razorpay_order_id pd \<mapsto> ord1)\<rparr>))))"

text \<open>
  \<open>handlePaymentFailure\<close>: the order is marked first; then the log line reads
  \<open>errorData.description\<close>, which throws a \<open>TypeError\<close> on \<open>undefined\<close> and \<open>null\<close>, and
  the \<open>catch\<close> throws it again. The result is \<open>Inl\<close> of the thrown error, or \<open>Inr\<close> of the
  \<open>error\<close> field of the reply.
\<close>

datatype thrown = TypeError

definition handlePaymentFailure ::
  "nat \<Rightarrow> string \<Rightarrow> errorData \<Rightarrow> paymentService \<Rightarrow> (thrown + errorData) \<times> paymentService" where
  "handlePaymentFailure t orderId err ps =
     (let ps1 = (case orders ps orderId of
                   Some ord \<Rightarrow>
                     ps\<lparr>orders := (orders ps)(orderId \<mapsto>
                          ord\<lparr>o_status := ''failed'', o_error := Some err,
                              o_failedAt := Some t\<rparr>)\<rparr>
                 | None \<Rightarrow> ps)
      in case err of
           Nullish \<Rightarrow> (Inl TypeError, ps1)
         | ErrorInfo description \<Rightarrow> (Inr err, ps1))"

section \<open>The route \<open>POST /api/payment/verify\<close>\<close>

record app =
  server :: server
  paymentService :: paymentService

record verifyRequest =
  v_paymentData :: "paymentData option"
  v_userId :: string

datatype verifyResponse =
    VerifyBadRequest
  | VerifyOk payment order userState
  | VerifyServerError paymentError

definition paymentVerify ::
  "(string \<Rightarrow> string \<Rightarrow> string) \<Rightarrow> nat \<Rightarrow> verifyRequest \<Rightarrow> app \<Rightarrow> verifyResponse \<times> app" where
  "paymentVerify hmac t req a =
     (case v_paymentData req of
        None \<Rightarrow> (VerifyBadRequest, a)
      | Some pd \<Rightarrow>
          if v_userId req = [] then (VerifyBadRequest, a)
          else case verifyPayment hmac t pd (paymentService a) of
            (Inl err, ps') \<Rightarrow> (VerifyServerError err, a\<lparr>paymentService := ps'\<rparr>)
          | (Inr (pay, ord), ps') \<Rightarrow>
              (let userState = (usageOf (server a) (v_userId req))
                     \<lparr>isPremium := True,
                      planType := Some (o_planType ord),
                      totalQuestions := questions (o_plan ord),
                      remainingQuestions := Some (questions (o_plan ord)),
                      purchaseDate := Some t,
                      paymentId := Some (p_id pay)\<rparr>
               in (VerifyOk pay ord userState,
                   a\<lparr>paymentService := ps',
                     server := (server a)
                       \<lparr>userStates := (userStates (server a))(v_userId req \<mapsto> userState)\<rparr>\<rparr>)))"

section \<open>Sequences of operations\<close>

datatype operation =
    ChatMessage env chatRequest
  | PaymentVerify nat verifyRequest

fun step :: "(string \<Rightarrow> string \<Rightarrow> string) \<Rightarrow> operation \<Rightarrow> app \<Rightarrow> app" where
  "step hmac (ChatMessage e req) a = a\<lparr>server := snd (chatMessage e req (server a))\<rparr>"
| "step hmac (PaymentVerify t req) a = snd (paymentVerify hmac t req a)"

definition run :: "(string \<Rightarrow> string \<Rightarrow> string) \<Rightarrow> operation list \<Rightarrow> app \<Rightarrow> app" where
  "run hmac ops a = fold (step hmac) ops a"

text \<open>The free limit holds for every stored usage state.\<close>

definition quotaInv :: "server \<Rightarrow> bool" where
  "quotaInv s =
     (\<forall>userId u. userStates s userId = Some u \<longrightarrow>
        (\<not> isPremium u \<longrightarrow> freeQuestionsUsed u \<le> 10))"

text \<open>A user's counter and entitlement never go back from \<open>s\<close> to \<open>s'\<close>.\<close>

definition usageGrows :: "server \<Rightarrow> server \<Rightarrow> bool" where
  "usageGrows s s' =
     (\<forall>userId.
        freeQuestionsUsed (usageOf s userId) \<le> freeQuestionsUsed (usageOf s' userId)
        \<and> (isPremium (usageOf s userId) \<longrightarrow> isPremium (usageOf s' userId)))"

text \<open>Handling \<open>n\<close> exchanges in a row in one session, oldest first.\<close>

fun recordExchanges :: "(nat \<times> string \<times> string \<times> classification) list \<Rightarrow> session \<Rightarrow> session" where
  "recordExchanges [] ses = ses"
| "recordExchanges ((t, message, response, cl) # xs) ses =
     recordExchanges xs (recordExchange t message response cl ses)"

text \<open>The text one exchange adds to the context.\<close>

definition exchangeText :: "nat \<times> string \<times> string \<times> classification \<Rightarrow> string" where
  "exchangeText x =
     (case x of (t, message, response, cl) \<Rightarrow>
        ''User: '' @ message @ [newline] @ ''Bot: '' @ response @ [newline])"

definition entryOf :: "nat \<times> string \<times> string \<times> classification \<Rightarrow> messageEntry" where
  "entryOf x =
     (case x of (t, message, response, cl) \<Rightarrow>
        \<lparr>m_user = message, m_bot = response, m_timestamp = t,
         m_classification = intent cl, m_confidence = confidence cl,
         m_isGeneralOverview = isGeneralOverview cl\<rparr>)"


text \<open>
  A request takes the branch of an ordinary question: a premium user is not counted, a
  non-premium user at the limit is refused with the payment-required response, and any
  other non-premium user is charged one free question.
\<close>

definition handledAsChargeable :: "env \<Rightarrow> chatRequest \<Rightarrow> server \<Rightarrow> bool" where
  "handledAsChargeable e req s =
     (let us = usageOf s (req_userId req);
          r = chatMessage e req s
      in \<not> firstOverview s req
         \<and> (if isPremium us
             then freeQuestionsUsed (usageOf (snd r) (req_userId req)) = freeQuestionsUsed us
             else if freeQuestionsUsed us \<ge> 10
             then r = (PaymentRequired (freeQuestionsUsed us) False, s)
             else freeQuestionsUsed (usageOf (snd r) (req_userId req))
                    = freeQuestionsUsed us + 1))"

section \<open>Concrete inputs\<close>

definition demoUser :: user where
  "demoUser = \<lparr>fullName = ''Asha'', gender = ''female'', birthDate = ''1995-03-12'',
                birthTime = ''04:30'', birthPlace = ''Mumbai''\<rparr>"

definition demoEnv :: env where
  "demoEnv = \<lparr>now = 5,
               divineApi = (\<lambda>u endpoint. HttpOk ''{}''),
               getClaudeResponse = (\<lambda>message ctx overview. Inr ''Namaste'')\<rparr>"

definition failingEnv :: env where
  "failingEnv = \<lparr>now = 7,
                  divineApi = (\<lambda>u endpoint. HttpOk ''{}''),
                  getClaudeResponse = (\<lambda>message ctx overview. Inl ''Claude API error: 529'')\<rparr>"

definition providerDownEnv :: env where
  "providerDownEnv = \<lparr>now = 7,
                       divineApi = (\<lambda>u endpoint. HttpThrows ''connect ECONNREFUSED''),
                       getClaudeResponse = (\<lambda>message ctx overview. Inr ''Namaste'')\<rparr>"

definition laterEnv :: env where
  "laterEnv = \<lparr>now = 60007,
                divineApi = (\<lambda>u endpoint. HttpOk ''{}''),
                getClaudeResponse = (\<lambda>message ctx overview. Inr ''Namaste'')\<rparr>"

definition demoServer :: server where
  "demoServer = initialServer\<lparr>users := [''u1'' \<mapsto> demoUser],
                               userStates := [''u1'' \<mapsto> defaultUserState]\<rparr>"

definition fullServer :: server where
  "fullServer =
     demoServer\<lparr>userStates := [''u1'' \<mapsto> defaultUserState\<lparr>freeQuestionsUsed := 10\<rparr>]\<rparr>"

definition jobRequest :: chatRequest where
  "jobRequest =
     \<lparr>req_userId = ''u1'', req_sessionId = ''s1'', req_message = ''Will I get a job?''\<rparr>"

definition overviewRequest :: chatRequest where
  "overviewRequest =
     \<lparr>req_userId = ''u1'', req_sessionId = ''s1'',
      req_message = '' Give me a general reading ''\<rparr>"

definition demoHmac :: "string \<Rightarrow> string \<Rightarrow> string" where
  "demoHmac key msg = rev msg @ key"

definition demoOrder :: order where
  "demoOrder =
     \<lparr>o_id = ''order_1'', o_amount = 19900, o_currency = ''INR'', o_userId = ''u1'',
      o_planType = ''basic'',
      o_plan = \<lparr>questions = 5, price = 199, planName = ''Basic Plan''\<rparr>,
      o_status = ''created'', o_paymentId = None, o_error = None, o_failedAt = None\<rparr>"

definition demoService :: paymentService where
  "demoService =
     \<lparr>orders = [''order_1'' \<mapsto> demoOrder], payments = Map.empty, keySecret = ''k''\<rparr>"

definition demoPayment :: paymentData where
  "demoPayment =
     \<lparr>razorpay_order_id = ''order_1'', razorpay_payment_id = ''pay_1'',
      razorpay_signature = ''1_yap|1_redrok''\<rparr>"

definition demoVerify :: verifyRequest where
  "demoVerify = \<lparr>v_paymentData = Some demoPayment, v_userId = ''u1''\<rparr>"

definition demoApp :: app where
  "demoApp = \<lparr>server = demoServer, paymentService = demoService\<rparr>"

definition fullApp :: app where
  "fullApp = \<lparr>server = fullServer, paymentService = demoService\<rparr>"

definition demoSession :: session where
  "demoSession =
     \<lparr>messages = [\<lparr>m_user = ''hello'', m_bot = ''Namaste'', m_timestamp = 1,
                    m_classification = ''general'', m_confidence = 0,
                    m_isGeneralOverview = False\<rparr>],
      contextText = ''User: hello'' @ [newline] @ ''Bot: Namaste'' @ [newline],
      startTime = 1, queryCount = 1, lastActivity = Some 1\<rparr>"

definition talkedServer :: server where
  "talkedServer = demoServer\<lparr>sessions := [''s1'' \<mapsto> demoSession]\<rparr>"

definition demoKey :: string where
  "demoKey = ''u1_planetary-positions_basic-astro-details''"

definition demoClassification :: classification where
  "demoClassification =
     \<lparr>intent = ''career'', confidence = 2 / 9, apis = standardApis,
      isComplex = Some False, isGeneralOverview = False\<rparr>"

definition numbered :: "nat \<Rightarrow> nat \<times> string \<times> string \<times> classification" where
  "numbered i = (i, ''q'' @ replicate i CHR ''x'', ''ok'', demoClassification)"

definition longReply :: string where
  "longReply = concat (replicate 24 (''Saturn'' @ [newline]))"

section \<open>Substrings\<close>

lemma startsWith_iff: "startsWith s p \<longleftrightarrow> (\<exists>ss. s = p @ ss)"
  by (induction s p rule: startsWith.induct) auto

lemma js_includes_iff: "js_includes s sub \<longleftrightarrow> (\<exists>ps ss. s = ps @ sub @ ss)"
proof (induction s)
  case Nil
  then show ?case by auto
next
  case (Cons c cs)
  show ?case
  proof
    assume "js_includes (c # cs) sub"
    then consider "startsWith (c # cs) sub" | "js_includes cs sub" by auto
    then show "\<exists>ps ss. c # cs = ps @ sub @ ss"
    proof cases
      case 1
      then obtain ss where "c # cs = sub @ ss" by (auto simp: startsWith_iff)
      then have "c # cs = [] @ sub @ ss" by simp
      then show ?thesis by blast
    next
      case 2
      with Cons.IH obtain ps ss where "cs = ps @ sub @ ss" by auto
      then have "c # cs = (c # ps) @ sub @ ss" by simp
      then show ?thesis by blast
    qed
  next
    assume "\<exists>ps ss. c # cs = ps @ sub @ ss"
    then obtain ps ss where e: "c # cs = ps @ sub @ ss" by auto
    show "js_includes (c # cs) sub"
    proof (cases ps)
      case Nil
      with e have "startsWith (c # cs) sub" unfolding startsWith_iff by auto
      then show ?thesis by simp
    next
      case (Cons d ds)
      with e have "cs = ds @ sub @ ss" by simp
      with Cons.IH have "js_includes cs sub" by blast
      then show ?thesis by simp
    qed
  qed
qed

section \<open>The classifier\<close>

text \<open>
  C4. A text whose lower-cased form contains \<open>general\<close> and also \<open>overview\<close> or
  \<open>reading\<close> is classified \<open>general_overview\<close> with confidence 1 and
  \<open>isGeneralOverview\<close> true, whatever else it contains.
\<close>

theorem overview_short_circuit:
  "\<lbrakk>\<exists>ps ss. toLowerCase query = ps @ ''general'' @ ss;
    (\<exists>ps ss. toLowerCase query = ps @ ''overview'' @ ss)
    \<or> (\<exists>ps ss. toLowerCase query = ps @ ''reading'' @ ss)\<rbrakk>
   \<Longrightarrow> classifyUserQuery query =
         \<lparr>intent = ''general_overview'', confidence = 1, apis = standardApis,
          isComplex = None, isGeneralOverview = True\<rparr>"
  by (simp add: classifyUserQuery_def isOverviewRequest_def js_includes_iff)

theorem overview_short_circuit_witness:
  "js_includes (toLowerCase ''My marriage and job: a General READING please'') ''general''
   \<and> js_includes (toLowerCase ''My marriage and job: a General READING please'') ''reading''
   \<and> js_includes (toLowerCase ''My marriage and job: a General READING please'') ''marriage''
   \<and> classifyUserQuery ''My marriage and job: a General READING please'' =
         \<lparr>intent = ''general_overview'', confidence = 1, apis = standardApis,
          isComplex = None, isGeneralOverview = True\<rparr>"
proof -
  have g: "js_includes (toLowerCase ''My marriage and job: a General READING please'') ''general''"
    by code_simp
  have r: "js_includes (toLowerCase ''My marriage and job: a General READING please'') ''reading''"
    by code_simp
  have m: "js_includes (toLowerCase ''My marriage and job: a General READING please'') ''marriage''"
    by code_simp
  from g obtain ps ss where
    g': "toLowerCase ''My marriage and job: a General READING please'' = ps @ ''general'' @ ss"
    unfolding js_includes_iff by blast
  from r obtain ps2 ss2 where
    r': "toLowerCase ''My marriage and job: a General READING please'' = ps2 @ ''reading'' @ ss2"
    unfolding js_includes_iff by blast
  have "classifyUserQuery ''My marriage and job: a General READING please'' =
         \<lparr>intent = ''general_overview'', confidence = 1, apis = standardApis,
          isComplex = None, isGeneralOverview = True\<rparr>"
    by (rule overview_short_circuit) (use g' r' in blast)+
  with g r m show ?thesis by simp
qed

subsection \<open>The regular expression test is the whole-word match\<close>

lemma isWordChar_lower: "isWordChar (toLowerChar c) = isWordChar c"
  by (auto simp: isWordChar_def toLowerChar_def)

lemma length_toLowerCase: "length (toLowerCase s) = length s"
  by (simp add: toLowerCase_def)

lemma toLowerCase_take: "toLowerCase (take n s) = take n (toLowerCase s)"
  by (simp add: toLowerCase_def take_map)

lemma startsWith_take: "startsWith s p \<longleftrightarrow> take (length p) s = p"
  by (induction s p rule: startsWith.induct) auto

lemma headOpt_word: "isWordOpt (headOpt s) \<longleftrightarrow> s \<noteq> [] \<and> isWordChar (hd s)"
  by (cases s) auto

lemma lastOpt_last: "s \<noteq> [] \<Longrightarrow> lastOpt s = Some (last s)"
  by (induction s) auto

lemma same_lower_ends:
  assumes "toLowerCase w = toLowerCase kw" and "wordKeyword kw"
  shows "w \<noteq> [] \<and> isWordChar (hd w) \<and> isWordChar (last w)"
proof -
  from assms(2) have kw: "kw \<noteq> []" "isWordChar (hd kw)" "isWordChar (last kw)"
    by (simp_all add: wordKeyword_def)
  from assms(1) have "length w = length kw" by (metis length_toLowerCase)
  with kw have w: "w \<noteq> []" by auto
  have "toLowerChar (hd w) = hd (toLowerCase w)" using w by (simp add: toLowerCase_def hd_map)
  also have "\<dots> = toLowerChar (hd kw)" using kw assms(1) by (simp add: toLowerCase_def hd_map)
  finally have h: "isWordChar (hd w)" using kw isWordChar_lower by metis
  have "toLowerChar (last w) = last (toLowerCase w)" using w by (simp add: toLowerCase_def last_map)
  also have "\<dots> = toLowerChar (last kw)" using kw assms(1) by (simp add: toLowerCase_def last_map)
  finally have l: "isWordChar (last w)" using kw isWordChar_lower by metis
  show ?thesis using w h l by simp
qed

lemma regexMatchHere_wordy:
  assumes "wordKeyword kw"
  shows "regexMatchHere prev rest kw \<longleftrightarrow>
           (toLowerCase (take (length kw) rest) = toLowerCase kw
            \<and> \<not> isWordOpt prev
            \<and> \<not> isWordOpt (headOpt (drop (length kw) rest)))"
proof (cases "toLowerCase (take (length kw) rest) = toLowerCase kw")
  case False
  then show ?thesis
    by (simp add: regexMatchHere_def startsWith_take length_toLowerCase toLowerCase_take)
next
  case True
  from same_lower_ends[OF True assms]
  have w: "take (length kw) rest \<noteq> []" "isWordChar (hd (take (length kw) rest))"
    "isWordChar (last (take (length kw) rest))" by blast+
  from assms have kw: "kw \<noteq> []" by (simp add: wordKeyword_def)
  from w(1) have r: "rest \<noteq> []" by auto
  have hdr: "hd (take (length kw) rest) = hd rest" using kw r by (cases rest; cases kw) auto
  have "isWordChar (hd rest)" using w(2) unfolding hdr .
  then have h: "isWordOpt (headOpt rest)" using r by (simp add: headOpt_word)
  show ?thesis
    using True kw h w(3)
    by (simp add: regexMatchHere_def startsWith_take length_toLowerCase toLowerCase_take
        isBoundary_def lastOpt_last[OF w(1)])
qed

lemma regexScan_iff:
  assumes "wordKeyword kw"
  shows "regexScan prev rest kw \<longleftrightarrow>
           (\<exists>ps w ss. rest = ps @ w @ ss \<and> toLowerCase w = toLowerCase kw
              \<and> \<not> isWordOpt (if ps = [] then prev else Some (last ps))
              \<and> \<not> isWordOpt (headOpt ss))"
proof (induction rest arbitrary: prev)
  case Nil
  from assms have "kw \<noteq> []" by (simp add: wordKeyword_def)
  then have "toLowerCase kw \<noteq> []" by (simp add: toLowerCase_def)
  then show ?case
    by (auto simp: regexMatchHere_wordy[OF assms] toLowerCase_def)
next
  case (Cons c cs)
  have here: "regexMatchHere prev (c # cs) kw \<longleftrightarrow>
      (\<exists>w ss. c # cs = w @ ss \<and> toLowerCase w = toLowerCase kw
         \<and> \<not> isWordOpt prev \<and> \<not> isWordOpt (headOpt ss))"
  proof
    assume "regexMatchHere prev (c # cs) kw"
    then have m: "toLowerCase (take (length kw) (c # cs)) = toLowerCase kw"
      "\<not> isWordOpt prev" "\<not> isWordOpt (headOpt (drop (length kw) (c # cs)))"
      by (simp_all add: regexMatchHere_wordy[OF assms])
    have "c # cs = take (length kw) (c # cs) @ drop (length kw) (c # cs)" by simp
    with m show "\<exists>w ss. c # cs = w @ ss \<and> toLowerCase w = toLowerCase kw
         \<and> \<not> isWordOpt prev \<and> \<not> isWordOpt (headOpt ss)" by blast
  next
    assume "\<exists>w ss. c # cs = w @ ss \<and> toLowerCase w = toLowerCase kw
         \<and> \<not> isWordOpt prev \<and> \<not> isWordOpt (headOpt ss)"
    then obtain w ss where e: "c # cs = w @ ss" "toLowerCase w = toLowerCase kw"
      "\<not> isWordOpt prev" "\<not> isWordOpt (headOpt ss)" by blast
    from e(2) have "length w = length kw" by (metis length_toLowerCase)
    with e(1) have "take (length kw) (c # cs) = w" "drop (length kw) (c # cs) = ss"
      by (metis append_eq_conv_conj)+
    with e show "regexMatchHere prev (c # cs) kw"
      by (simp add: regexMatchHere_wordy[OF assms])
  qed
  show ?case
  proof
    assume "regexScan prev (c # cs) kw"
    then consider "regexMatchHere prev (c # cs) kw" | "regexScan (Some c) cs kw" by auto
    then show "\<exists>ps w ss. c # cs = ps @ w @ ss \<and> toLowerCase w = toLowerCase kw
              \<and> \<not> isWordOpt (if ps = [] then prev else Some (last ps))
              \<and> \<not> isWordOpt (headOpt ss)"
    proof cases
      case 1
      with here obtain w ss where "c # cs = w @ ss" "toLowerCase w = toLowerCase kw"
        "\<not> isWordOpt prev" "\<not> isWordOpt (headOpt ss)" by blast
      then have "c # cs = [] @ w @ ss \<and> toLowerCase w = toLowerCase kw
              \<and> \<not> isWordOpt (if ([]::string) = [] then prev else Some (last []))
              \<and> \<not> isWordOpt (headOpt ss)" by simp
      then show ?thesis by blast
    next
      case 2
      with Cons.IH[of "Some c"] obtain ps w ss where
        e: "cs = ps @ w @ ss" "toLowerCase w = toLowerCase kw"
        "\<not> isWordOpt (if ps = [] then Some c else Some (last ps))"
        "\<not> isWordOpt (headOpt ss)" by blast
      then have "c # cs = (c # ps) @ w @ ss \<and> toLowerCase w = toLowerCase kw
              \<and> \<not> isWordOpt (if c # ps = [] then prev else Some (last (c # ps)))
              \<and> \<not> isWordOpt (headOpt ss)" by (auto split: if_splits)
      then show ?thesis by blast
    qed
  next
    assume "\<exists>ps w ss. c # cs = ps @ w @ ss \<and> toLowerCase w = toLowerCase kw
              \<and> \<not> isWordOpt (if ps = [] then prev else Some (last ps))
              \<and> \<not> isWordOpt (headOpt ss)"
    then obtain ps w ss where e: "c # cs = ps @ w @ ss" "toLowerCase w = toLowerCase kw"
      "\<not> isWordOpt (if ps = [] then prev else Some (last ps))"
      "\<not> isWordOpt (headOpt ss)" by blast
    show "regexScan prev (c # cs) kw"
    proof (cases ps)
      case Nil
      with e have "regexMatchHere prev (c # cs) kw" unfolding here by auto
      then show ?thesis by simp
    next
      case (Cons d ds)
      with e have "cs = ds @ w @ ss \<and> toLowerCase w = toLowerCase kw
        \<and> \<not> isWordOpt (if ds = [] then Some c else Some (last ds))
        \<and> \<not> isWordOpt (headOpt ss)" by auto
      then have "regexScan (Some c) cs kw" unfolding Cons.IH[of "Some c"] by blast
      then show ?thesis by simp
    qed
  qed
qed

lemma wholeWordTest_spec:
  assumes "wordKeyword kw"
  shows "wholeWordTest kw query \<longleftrightarrow> spec_wholeWord query kw"
proof -
  have a: "\<not> isWordOpt (if ps = [] then None else Some (last ps))
           \<longleftrightarrow> (ps = [] \<or> \<not> isWordChar (last ps))" for ps :: string
    by simp
  have b: "\<not> isWordOpt (headOpt ss) \<longleftrightarrow> (ss = [] \<or> \<not> isWordChar (hd ss))" for ss
    by (auto simp: headOpt_word)
  show ?thesis
    unfolding wholeWordTest_def regexScan_iff[OF assms] spec_wholeWord_def a b ..
qed

lemma js_includes_spec: "js_includes (toLowerCase query) kw \<longleftrightarrow> spec_contains query kw"
  by (simp add: js_includes_iff spec_contains_def)

lemma intents_wordy:
  "list_all (\<lambda>(name, kws, a). list_all wordKeyword kws) intents"
  by (simp add: intents_def wordKeyword_def isWordChar_def)

subsection \<open>The two loops compute the specification's choice\<close>

lemma fold_scoreKeyword:
  "list_all wordKeyword kws \<Longrightarrow>
   fold (scoreKeyword query) kws (t, m) =
     (t + sum_list (map (spec_weight query) kws),
      m + length (filter (spec_contains query) kws))"
  by (induction kws arbitrary: t m)
     (simp_all add: scoreKeyword_def spec_weight_def js_includes_spec wholeWordTest_spec)

lemma no_match_weight_zero:
  "filter (spec_contains query) kws = [] \<Longrightarrow>
   sum_list (map (spec_weight query) kws) = 0"
  by (induction kws) (simp_all add: spec_weight_def split: if_splits)

lemma intentConfidence_spec:
  "list_all wordKeyword kws \<Longrightarrow> intentConfidence query kws = spec_score query kws"
  by (simp add: intentConfidence_def spec_score_def fold_scoreKeyword no_match_weight_zero)

lemma scoredIntents_spec: "scoredIntents query = spec_scores query"
  unfolding scoredIntents_def spec_scores_def
proof (rule map_cong[OF refl])
  fix x assume "x \<in> set intents"
  with intents_wordy have "list_all wordKeyword (fst (snd x))"
    by (auto simp: list_all_iff)
  then show "(case x of (name, keywords, a) \<Rightarrow> (name, intentConfidence query keywords))
           = (case x of (name, keywords, a) \<Rightarrow> (name, spec_score query keywords))"
    by (simp add: split_beta intentConfidence_spec)
qed

text \<open>The specification's tests by the code's functions, for evaluation.\<close>

lemma spec_weight_code:
  "wordKeyword kw \<Longrightarrow>
   spec_weight query kw =
     (if js_includes (toLowerCase query) kw then (if wholeWordTest kw query then 2 else 1) else 0)"
  by (simp add: spec_weight_def js_includes_spec wholeWordTest_spec)

lemma noKeywordMatches_code:
  "noKeywordMatches query =
     list_all (\<lambda>(name, keywords, a).
        list_all (\<lambda>keyword. \<not> js_includes (toLowerCase query) keyword) keywords) intents"
  by (simp add: noKeywordMatches_def js_includes_spec)

lemma spec_score_nonneg: "0 \<le> spec_score query kws"
  by (simp add: spec_score_def)

lemma fold_pickBetter_keep:
  "list_all (\<lambda>e. snd e \<le> h) scored \<Longrightarrow> fold pickBetter scored (b, h) = (b, h)"
  for scored :: "(string \<times> rat) list"
  by (induction scored) (auto simp: pickBetter_def)

text \<open>Joining an entry in front does not change which later entry is a maximum, once
  some later entry beats it.\<close>

lemma find_max_skip:
  fixes xs :: "(string \<times> rat) list"
  assumes "e2 \<in> set xs" and "s \<le> snd e2"
  shows "find (\<lambda>e. list_all (\<lambda>e'. snd e' \<le> snd e) ((n, s) # xs)) xs
         = find (\<lambda>e. list_all (\<lambda>e'. snd e' \<le> snd e) xs) xs"
proof (rule find_cong[OF refl])
  fix e assume "e \<in> set xs"
  show "list_all (\<lambda>e'. snd e' \<le> snd e) ((n, s) # xs) = list_all (\<lambda>e'. snd e' \<le> snd e) xs"
  proof
    assume "list_all (\<lambda>e'. snd e' \<le> snd e) ((n, s) # xs)"
    then show "list_all (\<lambda>e'. snd e' \<le> snd e) xs" by simp
  next
    assume a: "list_all (\<lambda>e'. snd e' \<le> snd e) xs"
    with assms(1) have "snd e2 \<le> snd e" by (auto simp: list_all_iff)
    with assms(2) have "s \<le> snd e" by simp
    with a show "list_all (\<lambda>e'. snd e' \<le> snd e) ((n, s) # xs)" by simp
  qed
qed

lemma fold_pickBetter_first_max:
  "\<not> list_all (\<lambda>e. snd e \<le> h) scored \<Longrightarrow>
   fold pickBetter scored (b, h) =
     the (find (\<lambda>e. list_all (\<lambda>e'. snd e' \<le> snd e) scored) scored)"
  for scored :: "(string \<times> rat) list"
proof (induction scored arbitrary: b h)
  case Nil
  then show ?case by simp
next
  case (Cons x xs)
  obtain n s where x: "x = (n, s)" by (cases x)
  show ?case
  proof (cases "s > h")
    case True
    then have stp: "pickBetter (n, s) (b, h) = (n, s)" by (simp add: pickBetter_def)
    show ?thesis
    proof (cases "list_all (\<lambda>e. snd e \<le> s) xs")
      case True
      then show ?thesis using x by (simp add: stp fold_pickBetter_keep)
    next
      case False
      from Cons.IH[OF False, of n]
      have ih: "fold pickBetter xs (n, s) =
        the (find (\<lambda>e. list_all (\<lambda>e'. snd e' \<le> snd e) xs) xs)" .
      from False obtain e2 where e2: "e2 \<in> set xs" "\<not> snd e2 \<le> s"
        by (auto simp: list_all_iff)
      then have "s \<le> snd e2" by simp
      from find_max_skip[OF e2(1) this, of n]
      show ?thesis using x False ih by (simp add: stp)
    qed
  next
    case False
    then have stp: "pickBetter (n, s) (b, h) = (b, h)" by (simp add: pickBetter_def)
    from False Cons.prems x have nall: "\<not> list_all (\<lambda>e. snd e \<le> h) xs" by simp
    from Cons.IH[OF nall, of b]
    have ih: "fold pickBetter xs (b, h) =
        the (find (\<lambda>e. list_all (\<lambda>e'. snd e' \<le> snd e) xs) xs)" .
    from nall obtain e2 where e2: "e2 \<in> set xs" "\<not> snd e2 \<le> h"
      by (auto simp: list_all_iff)
    then have nle: "\<not> snd e2 \<le> s" using False by simp
    with e2 have notx: "\<not> list_all (\<lambda>e. snd e \<le> s) xs"
      unfolding list_all_iff by blast
    from nle have "s \<le> snd e2" by simp
    from find_max_skip[OF e2(1) this, of n]
    show ?thesis using x notx ih by (simp add: stp)
  qed
qed

lemma find_first_max_Some:
  "scored \<noteq> [] \<Longrightarrow>
   \<exists>e. find (\<lambda>e. list_all (\<lambda>e'. snd e' \<le> snd e) scored) scored = Some e"
  for scored :: "(string \<times> rat) list"
proof -
  assume ne: "scored \<noteq> []"
  define m where "m = Max (snd ` set scored)"
  have "m \<in> snd ` set scored" unfolding m_def using ne by (intro Max_in) auto
  then obtain e where e: "e \<in> set scored" "snd e = m" by auto
  have "\<forall>e' \<in> set scored. snd e' \<le> m" unfolding m_def by simp
  with e have "list_all (\<lambda>e'. snd e' \<le> snd e) scored" by (simp add: list_all_iff)
  with e have "find (\<lambda>e. list_all (\<lambda>e'. snd e' \<le> snd e) scored) scored \<noteq> None"
    unfolding find_None_iff by blast
  then show ?thesis by blast
qed

lemma fold_pickBetter_spec:
  fixes scored :: "(string \<times> rat) list"
  assumes "list_all (\<lambda>e. 0 \<le> snd e) scored"
  shows "fold pickBetter scored (''general'', 0) = spec_choice scored"
proof (cases "list_all (\<lambda>e. snd e = 0) scored")
  case True
  then have "list_all (\<lambda>e. snd e \<le> 0) scored" by (simp add: list_all_iff)
  then show ?thesis using True by (simp add: fold_pickBetter_keep spec_choice_def)
next
  case False
  with assms have nall: "\<not> list_all (\<lambda>e. snd e \<le> 0) scored"
    by (fastforce simp: list_all_iff)
  then have "scored \<noteq> []" by auto
  from find_first_max_Some[OF this] obtain e where
    "find (\<lambda>e. list_all (\<lambda>e'. snd e' \<le> snd e) scored) scored = Some e" ..
  then show ?thesis using False fold_pickBetter_first_max[OF nall, of "''general''"]
    by (simp add: spec_choice_def)
qed

lemma spec_scores_nonneg: "list_all (\<lambda>e. 0 \<le> snd e) (spec_scores query)"
  by (simp add: spec_scores_def list_all_iff spec_score_nonneg split_beta)

lemma find_Some_mem: "find P xs = Some x \<Longrightarrow> x \<in> set xs"
  by (metis find_Some_iff nth_mem)

lemma spec_choice_name:
  "fst (spec_choice scored) = ''general'' \<or> fst (spec_choice scored) \<in> fst ` set scored"
  by (auto simp: spec_choice_def split: option.splits dest!: find_Some_mem intro: rev_image_eqI)

lemma apisOf_table:
  "name = ''general'' \<or> name \<in> fst ` set (spec_scores query) \<Longrightarrow> apisOf name = standardApis"
  by (auto simp: spec_scores_def apisOf_def intents_def)

lemma noKeywordMatches_zero:
  "noKeywordMatches query \<Longrightarrow> list_all (\<lambda>e. snd e = 0) (spec_scores query)"
  by (simp add: noKeywordMatches_def spec_scores_def intents_def spec_score_def spec_weight_def)

text \<open>
  C5. For a text outside the general-overview special case, \<open>classifyUserQuery\<close>
  returns the choice of the specification: every intent is scored by the sum of its
  keywords' weights (2 for a whole-word match, 1 for a substring only) over the length
  of its keyword list, the first intent of the table with the highest score wins, and
  the answer is \<open>general\<close> with confidence 0 when no keyword of any intent matches.
\<close>

theorem classify_scoring:
  "\<not> isOverviewRequest query \<Longrightarrow>
     classifyUserQuery query =
       \<lparr>intent = fst (spec_choice (spec_scores query)),
        confidence = snd (spec_choice (spec_scores query)),
        apis = standardApis,
        isComplex = Some (length (js_split CHR '' '' query) > 10),
        isGeneralOverview = False\<rparr>
     \<and> (noKeywordMatches query \<longrightarrow>
          intent (classifyUserQuery query) = ''general''
          \<and> confidence (classifyUserQuery query) = 0)"
proof -
  assume no: "\<not> isOverviewRequest query"
  have f: "fold pickBetter (scoredIntents query) (''general'', 0) = spec_choice (spec_scores query)"
    by (simp add: scoredIntents_spec fold_pickBetter_spec spec_scores_nonneg)
  have a: "apisOf (fst (spec_choice (spec_scores query))) = standardApis"
    by (rule apisOf_table) (rule spec_choice_name)
  have c: "classifyUserQuery query =
       \<lparr>intent = fst (spec_choice (spec_scores query)),
        confidence = snd (spec_choice (spec_scores query)),
        apis = standardApis,
        isComplex = Some (length (js_split CHR '' '' query) > 10),
        isGeneralOverview = False\<rparr>"
    using no f a by (simp add: classifyUserQuery_def split_beta)
  have z: "noKeywordMatches query \<Longrightarrow> spec_choice (spec_scores query) = (''general'', 0)"
    by (simp add: spec_choice_def noKeywordMatches_zero)
  show ?thesis using c z by simp
qed

theorem classify_scoring_witness:
  "\<not> isOverviewRequest ''When will I marry and get a JOB''
   \<and> classifyUserQuery ''When will I marry and get a JOB'' =
        \<lparr>intent = ''career'', confidence = 2 / 9, apis = standardApis,
         isComplex = Some False, isGeneralOverview = False\<rparr>
   \<and> \<not> isOverviewRequest ''jobs''
   \<and> spec_weight ''jobs'' ''job'' = 1 \<and> spec_weight ''a JOB!'' ''job'' = 2
   \<and> classifyUserQuery ''jobs'' =
        \<lparr>intent = ''career'', confidence = 1 / 9, apis = standardApis,
         isComplex = Some False, isGeneralOverview = False\<rparr>
   \<and> \<not> isOverviewRequest ''hello'' \<and> noKeywordMatches ''hello''
   \<and> intent (classifyUserQuery ''hello'') = ''general''
   \<and> confidence (classifyUserQuery ''hello'') = 0"
proof -
  have a: "\<not> isOverviewRequest ''When will I marry and get a JOB''" by code_simp
  have a2: "\<not> isOverviewRequest ''jobs''" by code_simp
  have b: "\<not> isOverviewRequest ''hello''" by code_simp
  have c: "noKeywordMatches ''hello''" unfolding noKeywordMatches_code by code_simp
  have d: "spec_choice (spec_scores ''When will I marry and get a JOB'') = (''career'', 2 / 9)"
    unfolding scoredIntents_spec[symmetric] by code_simp
  have d2: "spec_choice (spec_scores ''jobs'') = (''career'', 1 / 9)"
    unfolding scoredIntents_spec[symmetric] by code_simp
  have e: "length (js_split CHR '' '' ''When will I marry and get a JOB'') = 8" by code_simp
  have k: "wordKeyword ''job''" by (simp add: wordKeyword_def isWordChar_def)
  have w1: "spec_weight ''jobs'' ''job'' = 1" unfolding spec_weight_code[OF k] by code_simp
  have w2: "spec_weight ''a JOB!'' ''job'' = 2" unfolding spec_weight_code[OF k] by code_simp
  have f: "classifyUserQuery ''When will I marry and get a JOB'' =
        \<lparr>intent = ''career'', confidence = 2 / 9, apis = standardApis,
         isComplex = Some False, isGeneralOverview = False\<rparr>"
    using classify_scoring[OF a] d e by simp
  have f2: "classifyUserQuery ''jobs'' =
        \<lparr>intent = ''career'', confidence = 1 / 9, apis = standardApis,
         isComplex = Some False, isGeneralOverview = False\<rparr>"
    using classify_scoring[OF a2] d2 by simp
  have g: "intent (classifyUserQuery ''hello'') = ''general''
           \<and> confidence (classifyUserQuery ''hello'') = 0"
    using classify_scoring[OF b] c by blast
  show ?thesis using a a2 b c f f2 g w1 w2 by blast
qed

section \<open>What a request does to the usage states\<close>

lemma resolveAstroData_frame:
  "userStates (snd (resolveAstroData e u k eps s)) = userStates s
   \<and> sessions (snd (resolveAstroData e u k eps s)) = sessions s
   \<and> users (snd (resolveAstroData e u k eps s)) = users s
   \<and> generationCalls (snd (resolveAstroData e u k eps s)) = generationCalls s"
  by (simp add: resolveAstroData_def Let_def split: sum.splits option.splits)

lemma processQuery_userStates:
  "userStates (snd (processQuery e userId message sessionId s)) userId' =
     (if userId' = userId then
        (case fst (processQuery e userId message sessionId s) of
           Inr r \<Rightarrow>
             Some ((usageOf s userId)\<lparr>totalQuestions := totalQuestions (usageOf s userId) + 1\<rparr>)
         | Inl err \<Rightarrow>
            (if users s userId = None \<or> userStates s userId = None then userStates s userId
             else Some ((usageOf s userId)
                    \<lparr>totalQuestions := totalQuestions (usageOf s userId) + 1\<rparr>)))
      else userStates s userId')"
  using resolveAstroData_frame
  by (auto simp: processQuery_def Let_def split_beta split: option.splits sum.splits)

lemma processQuery_fields:
  "freeQuestionsUsed (usageOf (snd (processQuery e userId message sessionId s)) userId')
     = freeQuestionsUsed (usageOf s userId')
   \<and> isPremium (usageOf (snd (processQuery e userId message sessionId s)) userId')
     = isPremium (usageOf s userId')
   \<and> hasReceivedOverview (usageOf (snd (processQuery e userId message sessionId s)) userId')
     = hasReceivedOverview (usageOf s userId')"
  unfolding usageOf_def processQuery_userStates
  by (simp add: usageOf_def defaultUserState_def split: sum.splits option.splits)

lemma answerChat_state:
  "snd (answerChat e req us s)
     = snd (processQuery e (req_userId req) (js_trim (req_message req)) (req_sessionId req) s)"
  by (simp add: answerChat_def split: prod.splits sum.splits)

lemma answerChat_fields:
  "freeQuestionsUsed (usageOf (snd (answerChat e req us s)) userId')
     = freeQuestionsUsed (usageOf s userId')
   \<and> isPremium (usageOf (snd (answerChat e req us s)) userId')
     = isPremium (usageOf s userId')
   \<and> hasReceivedOverview (usageOf (snd (answerChat e req us s)) userId')
     = hasReceivedOverview (usageOf s userId')"
  by (simp add: answerChat_state processQuery_fields)

lemma usageOf_update:
  "usageOf (s\<lparr>userStates := (userStates s)(k \<mapsto> v)\<rparr>) userId' =
     (if userId' = k then v else usageOf s userId')"
  by (simp add: usageOf_def)

text \<open>The three fields the gate reads, after any chat request.\<close>

lemma chatMessage_fields:
  "freeQuestionsUsed (usageOf (snd (chatMessage e req s)) userId') =
     (if userId' = req_userId req \<and> validChatRequest req \<and> \<not> firstOverview s req
         \<and> \<not> isPremium (usageOf s userId') \<and> freeQuestionsUsed (usageOf s userId') < 10
      then freeQuestionsUsed (usageOf s userId') + 1
      else freeQuestionsUsed (usageOf s userId'))
   \<and> isPremium (usageOf (snd (chatMessage e req s)) userId') = isPremium (usageOf s userId')
   \<and> hasReceivedOverview (usageOf (snd (chatMessage e req s)) userId') =
       (hasReceivedOverview (usageOf s userId')
        \<or> (userId' = req_userId req \<and> validChatRequest req \<and> firstOverview s req))"
  by (simp add: chatMessage_def validChatRequest_def Let_def answerChat_fields usageOf_update)

lemma chatMessage_blocked:
  assumes "validChatRequest req"
    and "\<not> isPremium (usageOf s (req_userId req))"
    and "freeQuestionsUsed (usageOf s (req_userId req)) \<ge> 10"
    and "\<not> firstOverview s req"
  shows "chatMessage e req s =
           (PaymentRequired (freeQuestionsUsed (usageOf s (req_userId req))) False, s)"
  using assms by (simp add: chatMessage_def validChatRequest_def Let_def)

lemma jobRequest_valid: "validChatRequest jobRequest"
  by code_simp

lemma jobRequest_not_overview:
  "\<not> isGeneralOverview (classifyUserQuery (js_trim (req_message jobRequest)))"
  by code_simp

lemma fullServer_usage: "usageOf fullServer ''u1'' = defaultUserState\<lparr>freeQuestionsUsed := 10\<rparr>"
  by (simp add: usageOf_def fullServer_def demoServer_def)

lemma jobRequest_blocked:
  "chatMessage e jobRequest fullServer = (PaymentRequired 10 False, fullServer)"
proof -
  have u: "req_userId jobRequest = ''u1''" by (simp add: jobRequest_def)
  show ?thesis
    using chatMessage_blocked[of jobRequest fullServer e] jobRequest_valid jobRequest_not_overview
    by (simp add: u fullServer_usage firstOverview_def defaultUserState_def)
qed

text \<open>
  C1. A valid chat message from a non-premium user whose \<open>freeQuestionsUsed\<close> has reached
  10, and which is not a first-time general-overview request, is answered with the
  payment-required response; the state is the one before the request, so the counter
  stays, no other counter or session changes, and no generation call is made.
\<close>

theorem quota_exceeded_rejected:
  assumes "validChatRequest req"
    and "\<not> isPremium (usageOf s (req_userId req))"
    and "freeQuestionsUsed (usageOf s (req_userId req)) \<ge> 10"
    and "\<not> firstOverview s req"
  shows "chatMessage e req s =
           (PaymentRequired (freeQuestionsUsed (usageOf s (req_userId req))) False, s)
         \<and> userStates (snd (chatMessage e req s)) = userStates s
         \<and> sessions (snd (chatMessage e req s)) = sessions s
         \<and> generationCalls (snd (chatMessage e req s)) = generationCalls s"
  using chatMessage_blocked[OF assms, of e] by simp

theorem quota_exceeded_rejected_witness:
  "validChatRequest jobRequest
   \<and> freeQuestionsUsed (usageOf fullServer (req_userId jobRequest)) = 10
   \<and> chatMessage demoEnv jobRequest fullServer = (PaymentRequired 10 False, fullServer)
   \<and> generationCalls (snd (chatMessage demoEnv jobRequest fullServer))
       = generationCalls fullServer"
proof -
  have u: "req_userId jobRequest = ''u1''" by (simp add: jobRequest_def)
  have p: "\<not> isPremium (usageOf fullServer (req_userId jobRequest))"
    by (simp add: u fullServer_usage defaultUserState_def)
  have q: "freeQuestionsUsed (usageOf fullServer (req_userId jobRequest)) = 10"
    by (simp add: u fullServer_usage defaultUserState_def)
  have f: "\<not> firstOverview fullServer jobRequest"
    using jobRequest_not_overview by (simp add: firstOverview_def)
  from q have q': "freeQuestionsUsed (usageOf fullServer (req_userId jobRequest)) \<ge> 10" by simp
  show ?thesis
    using quota_exceeded_rejected[OF jobRequest_valid p q' f, of demoEnv] jobRequest_valid q
    by simp
qed

section \<open>Sequences of chat messages and payment verifications\<close>

lemma paymentVerify_server:
  "userStates (server (snd (paymentVerify hmac t req a))) userId' = userStates (server a) userId'
   \<or> (userId' = v_userId req
       \<and> (\<exists>u. userStates (server (snd (paymentVerify hmac t req a))) userId' = Some u
              \<and> isPremium u
              \<and> freeQuestionsUsed u = freeQuestionsUsed (usageOf (server a) userId')
              \<and> hasReceivedOverview u = hasReceivedOverview (usageOf (server a) userId')))"
  by (auto simp: paymentVerify_def Let_def split: option.splits prod.splits sum.splits)

lemma paymentVerify_fields:
  "freeQuestionsUsed (usageOf (server (snd (paymentVerify hmac t req a))) userId')
     = freeQuestionsUsed (usageOf (server a) userId')
   \<and> (isPremium (usageOf (server a) userId')
        \<longrightarrow> isPremium (usageOf (server (snd (paymentVerify hmac t req a))) userId'))
   \<and> hasReceivedOverview (usageOf (server (snd (paymentVerify hmac t req a))) userId')
     = hasReceivedOverview (usageOf (server a) userId')"
  using paymentVerify_server[of hmac t req a userId']
  by (auto simp: usageOf_def)

lemma step_fields:
  "freeQuestionsUsed (usageOf (server a) userId')
     \<le> freeQuestionsUsed (usageOf (server (step hmac op a)) userId')
   \<and> (isPremium (usageOf (server a) userId')
        \<longrightarrow> isPremium (usageOf (server (step hmac op a)) userId'))
   \<and> (hasReceivedOverview (usageOf (server a) userId')
        \<longrightarrow> hasReceivedOverview (usageOf (server (step hmac op a)) userId'))"
proof (cases op)
  case (ChatMessage e req)
  then show ?thesis by (simp add: chatMessage_fields)
next
  case (PaymentVerify t req)
  then show ?thesis by (simp add: paymentVerify_fields)
qed

text \<open>The invariant read through \<open>usageOf\<close>: a user without a stored state has the
  default one, which is within the limit.\<close>

lemma quotaInv_usageOf:
  "quotaInv s \<longleftrightarrow>
     (\<forall>userId. \<not> isPremium (usageOf s userId) \<longrightarrow> freeQuestionsUsed (usageOf s userId) \<le> 10)"
proof
  assume a: "quotaInv s"
  show "\<forall>userId. \<not> isPremium (usageOf s userId) \<longrightarrow> freeQuestionsUsed (usageOf s userId) \<le> 10"
  proof (intro allI impI)
    fix userId
    assume "\<not> isPremium (usageOf s userId)"
    then show "freeQuestionsUsed (usageOf s userId) \<le> 10"
      using a by (cases "userStates s userId")
        (simp_all add: quotaInv_def usageOf_def defaultUserState_def)
  qed
next
  assume b: "\<forall>userId. \<not> isPremium (usageOf s userId) \<longrightarrow> freeQuestionsUsed (usageOf s userId) \<le> 10"
  show "quotaInv s"
    unfolding quotaInv_def
  proof (intro allI impI)
    fix userId u
    assume "userStates s userId = Some u" "\<not> isPremium u"
    then show "freeQuestionsUsed u \<le> 10"
      using b[rule_format, of userId] by (simp add: usageOf_def)
  qed
qed

lemma step_quotaInv:
  assumes "quotaInv (server a)"
  shows "quotaInv (server (step hmac op a))"
  unfolding quotaInv_usageOf
proof (intro allI impI)
  fix userId
  assume np: "\<not> isPremium (usageOf (server (step hmac op a)) userId)"
  from assms have inv: "\<not> isPremium (usageOf (server a) userId) \<Longrightarrow>
      freeQuestionsUsed (usageOf (server a) userId) \<le> 10"
    by (simp add: quotaInv_usageOf)
  show "freeQuestionsUsed (usageOf (server (step hmac op a)) userId) \<le> 10"
  proof (cases op)
    case (ChatMessage e req)
    with np inv show ?thesis by (auto simp: chatMessage_fields split: if_splits)
  next
    case (PaymentVerify t req)
    with np inv paymentVerify_fields[of hmac t req a userId] show ?thesis by auto
  qed
qed

lemma run_quotaInv:
  "quotaInv (server a) \<Longrightarrow> quotaInv (server (run hmac ops a))"
  unfolding run_def by (induction ops arbitrary: a) (simp_all add: step_quotaInv)

lemma run_fields:
  "freeQuestionsUsed (usageOf (server a) userId')
     \<le> freeQuestionsUsed (usageOf (server (run hmac ops a)) userId')
   \<and> (isPremium (usageOf (server a) userId')
        \<longrightarrow> isPremium (usageOf (server (run hmac ops a)) userId'))
   \<and> (hasReceivedOverview (usageOf (server a) userId')
        \<longrightarrow> hasReceivedOverview (usageOf (server (run hmac ops a)) userId'))"
  unfolding run_def
proof (induction ops arbitrary: a)
  case Nil
  then show ?case by simp
next
  case (Cons op ops)
  show ?case
    using step_fields[of a userId' hmac op] Cons.IH[of "step hmac op a"]
    by (auto intro: order_trans)
qed

lemma initial_quotaInv: "quotaInv initialServer"
  by (simp add: quotaInv_def initialServer_def)

lemma demoVerify_upgrades:
  "usageOf (server (snd (paymentVerify demoHmac 9 demoVerify fullApp))) ''u1'' =
     \<lparr>freeQuestionsUsed = 10, isPremium = True, totalQuestions = 5,
      hasReceivedOverview = False, planType = Some ''basic'', remainingQuestions = Some 5,
      purchaseDate = Some 9, paymentId = Some ''pay_1''\<rparr>"
  by (simp add: paymentVerify_def verifyPayment_def demoVerify_def demoPayment_def fullApp_def
      demoService_def demoOrder_def demoHmac_def fullServer_usage usageOf_update
      defaultUserState_def Let_def)

text \<open>
  C2. Over any sequence of chat messages and payment verifications, started in a state
  where every non-premium user is within the free limit (the empty state is one), every
  non-premium user stays within the limit of 10, and for every user \<open>freeQuestionsUsed\<close>
  never decreases and \<open>isPremium\<close>, once true, stays true.
\<close>

theorem usage_monotone:
  assumes "quotaInv (server a)"
  shows "quotaInv (server (run hmac ops a))
         \<and> usageGrows (server a) (server (run hmac ops a))"
  using assms run_fields[of a _ hmac ops]
  by (simp add: run_quotaInv usageGrows_def)

theorem usage_monotone_witness:
  "quotaInv (server fullApp)
   \<and> quotaInv (server (run demoHmac
         [ChatMessage demoEnv jobRequest, PaymentVerify 9 demoVerify] fullApp))
   \<and> usageGrows (server fullApp)
        (server (run demoHmac [ChatMessage demoEnv jobRequest, PaymentVerify 9 demoVerify] fullApp))
   \<and> freeQuestionsUsed (usageOf (server fullApp) ''u1'') = 10
   \<and> freeQuestionsUsed (usageOf (server (run demoHmac
         [ChatMessage demoEnv jobRequest, PaymentVerify 9 demoVerify] fullApp)) ''u1'') = 10
   \<and> isPremium (usageOf (server (run demoHmac
         [ChatMessage demoEnv jobRequest, PaymentVerify 9 demoVerify] fullApp)) ''u1'')"
proof -
  have h: "quotaInv (server fullApp)"
    by (simp add: quotaInv_def fullApp_def fullServer_def demoServer_def initialServer_def
        defaultUserState_def)
  have r: "run demoHmac [ChatMessage demoEnv jobRequest, PaymentVerify 9 demoVerify] fullApp
           = snd (paymentVerify demoHmac 9 demoVerify fullApp)"
    by (simp add: run_def jobRequest_blocked fullApp_def)
  have a: "freeQuestionsUsed (usageOf (server fullApp) ''u1'') = 10"
    by (simp add: fullApp_def fullServer_usage defaultUserState_def)
  show ?thesis
    using usage_monotone[OF h, of demoHmac
        "[ChatMessage demoEnv jobRequest, PaymentVerify 9 demoVerify]"] h a
    by (simp add: r demoVerify_upgrades)
qed

section \<open>A generation call that fails\<close>

lemma processQuery_generation_fails:
  assumes "users s userId = Some u"
    and "\<forall>m c g. getClaudeResponse e m c g = Inl err"
  shows "fst (processQuery e userId message sessionId s) = Inl err"
    and "generationCalls (snd (processQuery e userId message sessionId s)) = generationCalls s + 1"
    and "sessions (snd (processQuery e userId message sessionId s)) =
           (case sessions s sessionId of
              None \<Rightarrow> sessions s
            | Some ses \<Rightarrow> (sessions s)(sessionId \<mapsto> ses\<lparr>queryCount := queryCount ses + 1\<rparr>))"
    and "userStates (snd (processQuery e userId message sessionId s)) =
           (case userStates s userId of
              None \<Rightarrow> userStates s
            | Some us \<Rightarrow> (userStates s)(userId \<mapsto> us\<lparr>totalQuestions := totalQuestions us + 1\<rparr>))"
  using assms resolveAstroData_frame
  by (auto simp: processQuery_def Let_def split_beta usageOf_def split: option.splits)

lemma answerChat_generation_fails:
  assumes "users s (req_userId req) = Some u"
    and "\<forall>m c g. getClaudeResponse e m c g = Inl err"
  shows "fst (answerChat e req us s) = ServerError err"
  using processQuery_generation_fails(1)[OF assms, of "js_trim (req_message req)" "req_sessionId req"]
  by (cases "processQuery e (req_userId req) (js_trim (req_message req)) (req_sessionId req) s")
    (auto simp: answerChat_def)

text \<open>The gate of the handler: the state in which \<open>processQuery\<close> is called.\<close>

lemma chatMessage_passes:
  assumes "validChatRequest req"
    and "firstOverview s req \<or> isPremium (usageOf s (req_userId req))
         \<or> freeQuestionsUsed (usageOf s (req_userId req)) < 10"
  shows "\<exists>us. chatMessage e req s = answerChat e req us
           (if firstOverview s req
            then s\<lparr>userStates := (userStates s)(req_userId req \<mapsto>
                     (usageOf s (req_userId req))\<lparr>hasReceivedOverview := True\<rparr>)\<rparr>
            else if isPremium (usageOf s (req_userId req)) then s
            else s\<lparr>userStates := (userStates s)(req_userId req \<mapsto>
                     (usageOf s (req_userId req))
                       \<lparr>freeQuestionsUsed := freeQuestionsUsed (usageOf s (req_userId req)) + 1\<rparr>)\<rparr>)"
  using assms by (auto simp: chatMessage_def validChatRequest_def Let_def)

lemma chatMessage_generation_fails:
  assumes "validChatRequest req"
    and "users s (req_userId req) = Some u"
    and "\<forall>m c g. getClaudeResponse e m c g = Inl err"
    and "firstOverview s req \<or> isPremium (usageOf s (req_userId req))
         \<or> freeQuestionsUsed (usageOf s (req_userId req)) < 10"
  shows "fst (chatMessage e req s) = ServerError err
    \<and> generationCalls (snd (chatMessage e req s)) = generationCalls s + 1
    \<and> freeQuestionsUsed (usageOf (snd (chatMessage e req s)) (req_userId req)) =
        (if firstOverview s req \<or> isPremium (usageOf s (req_userId req))
         then freeQuestionsUsed (usageOf s (req_userId req))
         else freeQuestionsUsed (usageOf s (req_userId req)) + 1)
    \<and> totalQuestions (usageOf (snd (chatMessage e req s)) (req_userId req)) =
        totalQuestions (usageOf s (req_userId req)) + 1
    \<and> sessions (snd (chatMessage e req s)) =
        (case sessions s (req_sessionId req) of
           None \<Rightarrow> sessions s
         | Some ses \<Rightarrow>
             (sessions s)(req_sessionId req \<mapsto> ses\<lparr>queryCount := queryCount ses + 1\<rparr>))"
proof -
  from chatMessage_passes[OF assms(1) assms(4), of e] obtain us s1 where
    c: "chatMessage e req s = answerChat e req us s1" and
    s1: "s1 = (if firstOverview s req
            then s\<lparr>userStates := (userStates s)(req_userId req \<mapsto>
                     (usageOf s (req_userId req))\<lparr>hasReceivedOverview := True\<rparr>)\<rparr>
            else if isPremium (usageOf s (req_userId req)) then s
            else s\<lparr>userStates := (userStates s)(req_userId req \<mapsto>
                     (usageOf s (req_userId req))
                       \<lparr>freeQuestionsUsed := freeQuestionsUsed (usageOf s (req_userId req)) + 1\<rparr>)\<rparr>)"
    by blast
  have u1: "users s1 (req_userId req) = Some u" using assms(2) s1 by simp
  have ses1: "sessions s1 = sessions s" using s1 by simp
  have g1: "generationCalls s1 = generationCalls s" using s1 by simp
  note pq = processQuery_generation_fails[OF u1 assms(3),
      of "js_trim (req_message req)" "req_sessionId req"]
  have r: "fst (chatMessage e req s) = ServerError err"
    using answerChat_generation_fails[OF u1 assms(3)] c by simp
  have st: "snd (chatMessage e req s) =
      snd (processQuery e (req_userId req) (js_trim (req_message req)) (req_sessionId req) s1)"
    using c by (simp add: answerChat_state)
  have g: "generationCalls (snd (chatMessage e req s)) = generationCalls s + 1"
    using pq(2) st g1 by simp
  have f: "freeQuestionsUsed (usageOf (snd (chatMessage e req s)) (req_userId req)) =
        (if firstOverview s req \<or> isPremium (usageOf s (req_userId req))
         then freeQuestionsUsed (usageOf s (req_userId req))
         else freeQuestionsUsed (usageOf s (req_userId req)) + 1)"
    using assms(1,4) by (auto simp: chatMessage_fields)
  have t: "totalQuestions (usageOf (snd (chatMessage e req s)) (req_userId req)) =
        totalQuestions (usageOf s (req_userId req)) + 1"
    unfolding st usageOf_def pq(4) using s1
    by (auto simp: usageOf_def defaultUserState_def split: option.splits)
  have se: "sessions (snd (chatMessage e req s)) =
        (case sessions s (req_sessionId req) of
           None \<Rightarrow> sessions s
         | Some ses \<Rightarrow>
             (sessions s)(req_sessionId req \<mapsto> ses\<lparr>queryCount := queryCount ses + 1\<rparr>))"
    unfolding st pq(3) ses1 ..
  show ?thesis using r g f t se by blast
qed

lemma failingEnv_generation: "\<forall>m c g. getClaudeResponse failingEnv m c g = Inl ''Claude API error: 529''"
  by (simp add: failingEnv_def)

lemma talkedServer_usage: "usageOf talkedServer ''u1'' = defaultUserState"
  by (simp add: usageOf_def talkedServer_def demoServer_def)

lemma jobRequest_fields: "req_userId jobRequest = ''u1''" "req_sessionId jobRequest = ''s1''"
  by (simp_all add: jobRequest_def)

text \<open>
  C3, as the code has it. When the generation collaborator fails on a message that
  passed the gate, the handler answers with the server error carrying the collaborator's
  message, and the session's message list and context are untouched (a session not yet
  stored stays absent). What was counted before the call stays counted:
  \<open>freeQuestionsUsed\<close> is one higher for a chargeable message of a non-premium user,
  \<open>totalQuestions\<close> is one higher, and the \<open>queryCount\<close> of a stored session is one higher.
\<close>

theorem generation_failure_effects:
  assumes "validChatRequest req"
    and "users s (req_userId req) = Some u"
    and "\<forall>m c g. getClaudeResponse e m c g = Inl err"
    and "firstOverview s req \<or> isPremium (usageOf s (req_userId req))
         \<or> freeQuestionsUsed (usageOf s (req_userId req)) < 10"
  shows "fst (chatMessage e req s) = ServerError err
    \<and> generationCalls (snd (chatMessage e req s)) = generationCalls s + 1
    \<and> freeQuestionsUsed (usageOf (snd (chatMessage e req s)) (req_userId req)) =
        (if firstOverview s req \<or> isPremium (usageOf s (req_userId req))
         then freeQuestionsUsed (usageOf s (req_userId req))
         else freeQuestionsUsed (usageOf s (req_userId req)) + 1)
    \<and> totalQuestions (usageOf (snd (chatMessage e req s)) (req_userId req)) =
        totalQuestions (usageOf s (req_userId req)) + 1
    \<and> sessions (snd (chatMessage e req s)) =
        (case sessions s (req_sessionId req) of
           None \<Rightarrow> sessions s
         | Some ses \<Rightarrow>
             (sessions s)(req_sessionId req \<mapsto> ses\<lparr>queryCount := queryCount ses + 1\<rparr>))"
  by (rule chatMessage_generation_fails[OF assms])

lemma talked_hyps:
  "users talkedServer (req_userId jobRequest) = Some demoUser"
  "firstOverview talkedServer jobRequest \<or> isPremium (usageOf talkedServer (req_userId jobRequest))
         \<or> freeQuestionsUsed (usageOf talkedServer (req_userId jobRequest)) < 10"
  "\<not> firstOverview talkedServer jobRequest"
  "sessions talkedServer ''s1'' = Some demoSession"
  using jobRequest_not_overview
  by (simp_all add: jobRequest_fields talkedServer_usage defaultUserState_def firstOverview_def)
     (simp_all add: talkedServer_def demoServer_def)

theorem generation_failure_effects_witness:
  "validChatRequest jobRequest
   \<and> fst (chatMessage failingEnv jobRequest talkedServer) = ServerError ''Claude API error: 529''
   \<and> generationCalls (snd (chatMessage failingEnv jobRequest talkedServer))
       = generationCalls talkedServer + 1
   \<and> freeQuestionsUsed (usageOf (snd (chatMessage failingEnv jobRequest talkedServer)) ''u1'') = 1
   \<and> totalQuestions (usageOf (snd (chatMessage failingEnv jobRequest talkedServer)) ''u1'') = 1
   \<and> sessions (snd (chatMessage failingEnv jobRequest talkedServer)) ''s1''
       = Some (demoSession\<lparr>queryCount := 2\<rparr>)"
  using generation_failure_effects[OF jobRequest_valid talked_hyps(1) failingEnv_generation
      talked_hyps(2)] jobRequest_valid talked_hyps(3,4)
  by (simp add: jobRequest_fields talkedServer_usage defaultUserState_def demoSession_def)

text \<open>
  C3 as stated fails: a first question whose generation call fails leaves
  \<open>freeQuestionsUsed\<close> and \<open>totalQuestions\<close> at 1 instead of 0 and the stored session's
  \<open>queryCount\<close> at 2 instead of 1.
\<close>

theorem generation_failure_counterexample:
  "fst (chatMessage failingEnv jobRequest talkedServer) = ServerError ''Claude API error: 529''
   \<and> freeQuestionsUsed (usageOf talkedServer ''u1'') = 0
   \<and> freeQuestionsUsed (usageOf (snd (chatMessage failingEnv jobRequest talkedServer)) ''u1'') = 1
   \<and> totalQuestions (usageOf talkedServer ''u1'') = 0
   \<and> totalQuestions (usageOf (snd (chatMessage failingEnv jobRequest talkedServer)) ''u1'') = 1
   \<and> map_option queryCount (sessions talkedServer ''s1'') = Some 1
   \<and> map_option queryCount (sessions (snd (chatMessage failingEnv jobRequest talkedServer)) ''s1'')
       = Some 2"
  using chatMessage_generation_fails[OF jobRequest_valid talked_hyps(1) failingEnv_generation
      talked_hyps(2)] talked_hyps(3,4)
  by (simp add: jobRequest_fields talkedServer_usage defaultUserState_def demoSession_def)

section \<open>The free overview is spent before the generation call\<close>

lemma later_not_first:
  assumes "hasReceivedOverview (usageOf (server a) userId)"
  shows "hasReceivedOverview (usageOf (server (run hmac ops a)) userId)"
  using assms run_fields[of a userId hmac ops] by simp

lemma chargeable_after_overview:
  assumes "hasReceivedOverview (usageOf s (req_userId req))"
    and "validChatRequest req"
  shows "handledAsChargeable e req s"
proof -
  have nf: "\<not> firstOverview s req" using assms(1) by (simp add: firstOverview_def)
  show ?thesis
  proof (cases "\<not> isPremium (usageOf s (req_userId req))
                \<and> freeQuestionsUsed (usageOf s (req_userId req)) \<ge> 10")
    case True
    then show ?thesis
      using chatMessage_blocked[OF assms(2) _ _ nf, of e] nf
      by (simp add: handledAsChargeable_def Let_def)
  next
    case False
    then show ?thesis using nf assms(2)
      by (auto simp: handledAsChargeable_def Let_def chatMessage_fields)
  qed
qed

text \<open>
  C10. On a user's first qualifying general-overview request the handler stores
  \<open>hasReceivedOverview = true\<close> before the generation call. When that call fails the
  response is the server error, the flag stays set, and after any further sequence of
  operations every valid request of that user, a general-overview request included, is
  handled as a chargeable question.
\<close>

theorem overview_consumed_on_failure:
  assumes "validChatRequest req"
    and "firstOverview (server a) req"
    and "users (server a) (req_userId req) = Some u"
    and "\<forall>m c g. getClaudeResponse e m c g = Inl err"
  shows "fst (chatMessage e req (server a)) = ServerError err
     \<and> generationCalls (snd (chatMessage e req (server a))) = generationCalls (server a) + 1
     \<and> hasReceivedOverview (usageOf (snd (chatMessage e req (server a))) (req_userId req))
     \<and> (\<forall>ops e' req'.
          req_userId req' = req_userId req \<and> validChatRequest req' \<longrightarrow>
            handledAsChargeable e' req'
              (server (run hmac ops (step hmac (ChatMessage e req) a))))"
proof -
  have g: "firstOverview (server a) req \<or> isPremium (usageOf (server a) (req_userId req))
         \<or> freeQuestionsUsed (usageOf (server a) (req_userId req)) < 10"
    using assms(2) by simp
  note f = chatMessage_generation_fails[OF assms(1) assms(3) assms(4) g]
  have h: "hasReceivedOverview (usageOf (snd (chatMessage e req (server a))) (req_userId req))"
    using assms(1,2) by (simp add: chatMessage_fields)
  have l: "handledAsChargeable e' req' (server (run hmac ops (step hmac (ChatMessage e req) a)))"
    if "req_userId req' = req_userId req" "validChatRequest req'" for ops e' req'
  proof -
    have "hasReceivedOverview (usageOf (server (step hmac (ChatMessage e req) a)) (req_userId req'))"
      using h that(1) by simp
    from later_not_first[OF this, of hmac ops] that(2)
    show ?thesis by (rule chargeable_after_overview)
  qed
  show ?thesis using f h l by blast
qed

lemma overviewRequest_valid: "validChatRequest overviewRequest"
  by code_simp

lemma overviewRequest_is_overview:
  "isGeneralOverview (classifyUserQuery (js_trim (req_message overviewRequest)))"
  by code_simp

lemma demoServer_usage: "usageOf demoServer ''u1'' = defaultUserState"
  by (simp add: usageOf_def demoServer_def)

lemma overviewRequest_fields: "req_userId overviewRequest = ''u1''"
  by (simp add: overviewRequest_def)

lemma overviewRequest_first: "firstOverview (server demoApp) overviewRequest"
  using overviewRequest_is_overview
  by (simp add: firstOverview_def demoApp_def overviewRequest_fields demoServer_usage
      defaultUserState_def)

lemma demoApp_user: "users (server demoApp) (req_userId overviewRequest) = Some demoUser"
  by (simp add: demoApp_def demoServer_def overviewRequest_fields initialServer_def)

theorem overview_consumed_on_failure_witness:
  "validChatRequest overviewRequest
   \<and> firstOverview (server demoApp) overviewRequest
   \<and> fst (chatMessage failingEnv overviewRequest (server demoApp))
       = ServerError ''Claude API error: 529''
   \<and> hasReceivedOverview
        (usageOf (snd (chatMessage failingEnv overviewRequest (server demoApp))) ''u1'')
   \<and> handledAsChargeable demoEnv overviewRequest
        (server (run demoHmac [] (step demoHmac (ChatMessage failingEnv overviewRequest) demoApp)))
   \<and> freeQuestionsUsed (usageOf (snd (chatMessage demoEnv overviewRequest
         (snd (chatMessage failingEnv overviewRequest (server demoApp))))) ''u1'') = 1"
proof -
  note t = overview_consumed_on_failure[OF overviewRequest_valid overviewRequest_first
      demoApp_user failingEnv_generation, of demoHmac]
  from t have c: "handledAsChargeable demoEnv overviewRequest
        (server (run demoHmac [] (step demoHmac (ChatMessage failingEnv overviewRequest) demoApp)))"
    using overviewRequest_valid by blast
  have s: "server (run demoHmac [] (step demoHmac (ChatMessage failingEnv overviewRequest) demoApp))
           = snd (chatMessage failingEnv overviewRequest (server demoApp))"
    by (simp add: run_def)
  have u: "freeQuestionsUsed
             (usageOf (snd (chatMessage failingEnv overviewRequest (server demoApp))) ''u1'') = 0
           \<and> \<not> isPremium
             (usageOf (snd (chatMessage failingEnv overviewRequest (server demoApp))) ''u1'')"
    using overviewRequest_first
    by (simp add: chatMessage_fields overviewRequest_fields demoApp_def demoServer_usage
        defaultUserState_def)
  have f: "freeQuestionsUsed (usageOf (snd (chatMessage demoEnv overviewRequest
         (snd (chatMessage failingEnv overviewRequest (server demoApp))))) ''u1'') = 1"
    using c u unfolding s handledAsChargeable_def Let_def overviewRequest_fields by simp
  show ?thesis
    using t c f overviewRequest_valid overviewRequest_first
    by (simp add: overviewRequest_fields)
qed

section \<open>The cache when the provider fails\<close>

subsection \<open>\<open>fetchAstrologyData\<close> records one result per endpoint and never rejects\<close>

lemma map_of_putResult: "map_of (putResult k v rs) = (map_of rs)(k \<mapsto> v)"
proof (cases "map_of rs k")
  case None
  then have "k \<notin> fst ` set rs" by (simp add: map_of_eq_None_iff)
  then have "map_of (rs @ [(k, v)]) = (map_of rs)(k \<mapsto> v)"
    by (induction rs) (auto simp: fun_upd_twist)
  with None show ?thesis by (simp add: putResult_def)
next
  case (Some old)
  have "map_of (map (\<lambda>(k', x). if k' = k then (k', v) else (k', x)) rs) k'
        = (if k' = k then (if k \<in> fst ` set rs then Some v else None) else map_of rs k')" for k'
    by (induction rs) (auto split: if_splits)
  moreover from Some have "k \<in> fst ` set rs" by (metis map_of_eq_None_iff option.distinct(1))
  ultimately show ?thesis using Some by (auto simp: putResult_def fun_eq_iff)
qed

lemma keys_putResult: "fst ` set (putResult k v rs) = insert k (fst ` set rs)"
  by (metis dom_map_of_conv_image_fst map_of_putResult dom_fun_upd option.distinct(1))

lemma distinct_putResult:
  "distinct (map fst rs) \<Longrightarrow> distinct (map fst (putResult k v rs))"
proof (cases "map_of rs k")
  case None
  assume d: "distinct (map fst rs)"
  from None have "k \<notin> fst ` set rs" by (simp add: map_of_eq_None_iff)
  with d show ?thesis using None by (simp add: putResult_def)
next
  case (Some old)
  assume d: "distinct (map fst rs)"
  have "map fst (map (\<lambda>(k', x). if k' = k then (k', v) else (k', x)) rs) = map fst rs"
    by (induction rs) auto
  with d have "distinct (map fst (map (\<lambda>(k', x). if k' = k then (k', v) else (k', x)) rs))"
    by (simp only:)
  with Some show ?thesis by (simp only: putResult_def option.case)
qed

lemma fold_putResult:
  "map_of (fold (\<lambda>ep rs. putResult ep (f ep) rs) eps rs0) k
     = (if k \<in> set eps then Some (f k) else map_of rs0 k)"
  by (induction eps arbitrary: rs0) (auto simp: map_of_putResult)

lemma fold_putResult_keys:
  "fst ` set (fold (\<lambda>ep rs. putResult ep (f ep) rs) eps rs0) = set eps \<union> fst ` set rs0"
  by (induction eps arbitrary: rs0) (auto simp: keys_putResult)

lemma fold_putResult_distinct:
  "distinct (map fst rs0) \<Longrightarrow>
   distinct (map fst (fold (\<lambda>ep rs. putResult ep (f ep) rs) eps rs0))"
  by (induction eps arbitrary: rs0) (auto simp: distinct_putResult)

lemma fetchResults_keys: "fst ` set (fetchResults e u eps) = set eps"
  by (simp add: fetchResults_def fold_putResult_keys)

lemma fetchResults_item:
  assumes "(ep, r) \<in> set (fetchResults e u eps)"
  shows "ep \<in> set eps \<and> r = endpointResultOf (divineApi e u ep)"
proof -
  have d: "distinct (map fst (fetchResults e u eps))"
    by (simp add: fetchResults_def fold_putResult_distinct)
  from assms d have m: "map_of (fetchResults e u eps) ep = Some r" by simp
  from assms have k: "ep \<in> set eps" using fetchResults_keys[of e u eps] by force
  from m k show ?thesis by (simp add: fetchResults_def fold_putResult)
qed

lemma fetchAstrologyData_resolves:
  "fetchAstrologyData e u eps = Inr (fetchResults e u eps)"
  by (simp add: fetchAstrologyData_def)

subsection \<open>The lookup\<close>

lemma resolveAstroData_refresh:
  assumes "needsFreshData e (astroCache s k)"
  shows "resolveAstroData e u k eps s =
           (freshEntry e u k eps,
            s\<lparr>fetchCalls := fetchCalls s + 1,
              astroCache := (astroCache s)(k \<mapsto> freshEntry e u k eps)\<rparr>)"
  using assms
  by (simp add: resolveAstroData_def Let_def fetchAstrologyData_resolves freshEntry_def)

lemma resolveAstroData_cached:
  assumes "astroCache s k = Some a" and "int (now e) - int (c_timestamp a) \<le> cacheExpiry"
  shows "resolveAstroData e u k eps s = (a, s)"
  using assms by (simp add: resolveAstroData_def Let_def needsFreshData_def)

lemma error_marker: "\<not> isOkResponse h \<Longrightarrow> isErrorResult (endpointResultOf h)"
  by (cases h) auto

text \<open>
  C6, as the code has it. When a key has no entry and the provider fails for every
  requested endpoint, \<open>fetchAstrologyData\<close> still resolves: its payload holds exactly one
  error marker per requested endpoint. No degraded entry is made; the entry built from
  the payload, with the current time and without an error flag of its own, is stored in
  the cache, and a lookup of the key within the next hour serves it without calling the
  fetch again.
\<close>

theorem refresh_failure_stored:
  assumes "astroCache s k = None"
    and "\<forall>ep \<in> set eps. \<not> isOkResponse (divineApi e u ep)"
  shows "resolveAstroData e u k eps s =
           (freshEntry e u k eps,
            s\<lparr>fetchCalls := fetchCalls s + 1,
              astroCache := (astroCache s)(k \<mapsto> freshEntry e u k eps)\<rparr>)
       \<and> fst ` set (c_data (freshEntry e u k eps)) = set eps
       \<and> (\<forall>item \<in> set (c_data (freshEntry e u k eps)). isErrorResult (snd item))
       \<and> \<not> c_error (freshEntry e u k eps)
       \<and> (\<forall>e'. int (now e') - int (now e) \<le> cacheExpiry \<longrightarrow>
             resolveAstroData e' u k eps (snd (resolveAstroData e u k eps s))
               = (freshEntry e u k eps, snd (resolveAstroData e u k eps s)))"
proof -
  have n: "needsFreshData e (astroCache s k)" using assms(1) by (simp add: needsFreshData_def)
  note r = resolveAstroData_refresh[OF n, of u eps]
  have k: "fst ` set (c_data (freshEntry e u k eps)) = set eps"
    by (simp add: freshEntry_def fetchResults_keys)
  have m: "isErrorResult (snd item)" if "item \<in> set (c_data (freshEntry e u k eps))" for item
  proof -
    obtain ep x where i: "item = (ep, x)" by (cases item)
    with that have "(ep, x) \<in> set (fetchResults e u eps)" by (simp add: freshEntry_def)
    from fetchResults_item[OF this] assms(2) show ?thesis
      by (simp add: i error_marker)
  qed
  have l: "resolveAstroData e' u k eps (snd (resolveAstroData e u k eps s))
               = (freshEntry e u k eps, snd (resolveAstroData e u k eps s))"
    if "int (now e') - int (now e) \<le> cacheExpiry" for e'
    by (rule resolveAstroData_cached) (use that in \<open>simp_all add: r freshEntry_def\<close>)
  show ?thesis using r k m l by (simp add: freshEntry_def)
qed

text \<open>A refresh over an expired entry stores the new entry in its place.\<close>

lemma stale_entry_replaced:
  assumes "astroCache s k = Some a" and "int (now e) - int (c_timestamp a) > cacheExpiry"
  shows "astroCache (snd (resolveAstroData e u k eps s)) k = Some (freshEntry e u k eps)"
proof -
  have "needsFreshData e (astroCache s k)" using assms by (simp add: needsFreshData_def)
  from resolveAstroData_refresh[OF this] show ?thesis by simp
qed

lemma providerDown_results:
  "fetchResults providerDownEnv demoUser standardApis =
     [(''planetary-positions'', EndpointNetworkError ''connect ECONNREFUSED''),
      (''basic-astro-details'', EndpointNetworkError ''connect ECONNREFUSED'')]"
  by (simp add: fetchResults_def standardApis_def providerDownEnv_def putResult_def)

lemma demoServer_cache: "astroCache demoServer demoKey = None"
  by (simp add: demoServer_def initialServer_def)

theorem refresh_failure_stored_witness:
  "astroCache demoServer demoKey = None
   \<and> \<not> isOkResponse (divineApi providerDownEnv demoUser ''planetary-positions'')
   \<and> fst (resolveAstroData providerDownEnv demoUser demoKey standardApis demoServer)
       = \<lparr>c_data = [(''planetary-positions'', EndpointNetworkError ''connect ECONNREFUSED''),
                    (''basic-astro-details'', EndpointNetworkError ''connect ECONNREFUSED'')],
          c_timestamp = 7, c_cacheKey = Some demoKey, c_error = False, c_fallback = False\<rparr>
   \<and> astroCache (snd (resolveAstroData providerDownEnv demoUser demoKey standardApis demoServer))
        demoKey
       = Some (fst (resolveAstroData providerDownEnv demoUser demoKey standardApis demoServer))
   \<and> fetchCalls (snd (resolveAstroData laterEnv demoUser demoKey standardApis
        (snd (resolveAstroData providerDownEnv demoUser demoKey standardApis demoServer))))
       = fetchCalls demoServer + 1"
proof -
  have h: "\<forall>ep \<in> set standardApis. \<not> isOkResponse (divineApi providerDownEnv demoUser ep)"
    by (simp add: providerDownEnv_def)
  have t: "int (now laterEnv) - int (now providerDownEnv) \<le> cacheExpiry"
    by (simp add: laterEnv_def providerDownEnv_def cacheExpiry_def)
  note r = refresh_failure_stored[OF demoServer_cache h]
  from r t have l: "resolveAstroData laterEnv demoUser demoKey standardApis
        (snd (resolveAstroData providerDownEnv demoUser demoKey standardApis demoServer))
      = (freshEntry providerDownEnv demoUser demoKey standardApis,
         snd (resolveAstroData providerDownEnv demoUser demoKey standardApis demoServer))"
    by blast
  have f: "freshEntry providerDownEnv demoUser demoKey standardApis
       = \<lparr>c_data = [(''planetary-positions'', EndpointNetworkError ''connect ECONNREFUSED''),
                    (''basic-astro-details'', EndpointNetworkError ''connect ECONNREFUSED'')],
          c_timestamp = 7, c_cacheKey = Some demoKey, c_error = False, c_fallback = False\<rparr>"
    unfolding freshEntry_def providerDown_results by (simp add: providerDownEnv_def)
  have o: "\<not> isOkResponse (divineApi providerDownEnv demoUser ''planetary-positions'')"
    by (simp add: providerDownEnv_def)
  show ?thesis
    using r demoServer_cache o unfolding l by (simp add: f)
qed

text \<open>
  C6 as stated fails: with the provider unreachable and no previous entry, the entry the
  request goes on with has a payload of two error markers, not an empty one, and its
  error flag is not set.
\<close>

theorem refresh_failure_counterexample:
  "astroCache demoServer demoKey = None
   \<and> c_data (fst (resolveAstroData providerDownEnv demoUser demoKey standardApis demoServer))
       = [(''planetary-positions'', EndpointNetworkError ''connect ECONNREFUSED''),
          (''basic-astro-details'', EndpointNetworkError ''connect ECONNREFUSED'')]
   \<and> c_data (fst (resolveAstroData providerDownEnv demoUser demoKey standardApis demoServer)) \<noteq> []
   \<and> \<not> c_error (fst (resolveAstroData providerDownEnv demoUser demoKey standardApis demoServer))"
proof -
  have n: "needsFreshData providerDownEnv (astroCache demoServer demoKey)"
    by (simp add: demoServer_cache needsFreshData_def)
  show ?thesis
    by (simp add: resolveAstroData_refresh[OF n] demoServer_cache freshEntry_def
        providerDown_results)
qed

section \<open>Payment verification\<close>

lemma verifyPayment_cases:
  assumes "orders ps (razorpay_order_id pd) = Some ord"
    and "razorpay_order_id pd \<noteq> []" and "razorpay_payment_id pd \<noteq> []"
    and "razorpay_signature pd \<noteq> []"
  shows "hmac (keySecret ps) (razorpay_order_id pd @ ''|'' @ razorpay_payment_id pd)
           = razorpay_signature pd
         \<Longrightarrow> \<exists>r ps'. verifyPayment hmac t pd ps = (Inr r, ps')"
    and "hmac (keySecret ps) (razorpay_order_id pd @ ''|'' @ razorpay_payment_id pd)
           \<noteq> razorpay_signature pd
         \<Longrightarrow> verifyPayment hmac t pd ps = (Inl InvalidSignature, ps)"
  using assms by (simp_all add: verifyPayment_def Let_def)

text \<open>
  C7. For a payload whose three fields are present and whose order is known,
  \<open>verifyPayment\<close> succeeds exactly when the HMAC of \<open>orderId|paymentId\<close> under the key
  secret equals the supplied signature; a mismatch fails with the invalid-signature
  error and changes nothing; and replacing any one character of a valid signature by a
  different one gives that failure.
\<close>

theorem verify_iff_signature:
  assumes "orders ps (razorpay_order_id pd) = Some ord"
    and "razorpay_order_id pd \<noteq> []" and "razorpay_payment_id pd \<noteq> []"
    and "razorpay_signature pd \<noteq> []"
  shows "((\<exists>r ps'. verifyPayment hmac t pd ps = (Inr r, ps'))
           \<longleftrightarrow> hmac (keySecret ps) (razorpay_order_id pd @ ''|'' @ razorpay_payment_id pd)
                 = razorpay_signature pd)
       \<and> (hmac (keySecret ps) (razorpay_order_id pd @ ''|'' @ razorpay_payment_id pd)
             \<noteq> razorpay_signature pd
           \<longrightarrow> verifyPayment hmac t pd ps = (Inl InvalidSignature, ps))
       \<and> (hmac (keySecret ps) (razorpay_order_id pd @ ''|'' @ razorpay_payment_id pd)
             = razorpay_signature pd
           \<longrightarrow> (\<forall>i c. i < length (razorpay_signature pd) \<and> c \<noteq> razorpay_signature pd ! i
                 \<longrightarrow> verifyPayment hmac t
                       (pd\<lparr>razorpay_signature := (razorpay_signature pd)[i := c]\<rparr>) ps
                     = (Inl InvalidSignature, ps)))"
proof -
  let ?h = "hmac (keySecret ps) (razorpay_order_id pd @ ''|'' @ razorpay_payment_id pd)"
  note c = verifyPayment_cases[OF assms, of hmac t]
  have a: "(\<exists>r ps'. verifyPayment hmac t pd ps = (Inr r, ps')) \<longleftrightarrow> ?h = razorpay_signature pd"
    using c by (cases "?h = razorpay_signature pd") auto
  have m: "verifyPayment hmac t (pd\<lparr>razorpay_signature := (razorpay_signature pd)[i := c]\<rparr>) ps
             = (Inl InvalidSignature, ps)"
    if v: "?h = razorpay_signature pd" and i: "i < length (razorpay_signature pd)"
      and ne: "c \<noteq> razorpay_signature pd ! i" for i c
  proof -
    let ?pd = "pd\<lparr>razorpay_signature := (razorpay_signature pd)[i := c]\<rparr>"
    have d: "(razorpay_signature pd)[i := c] \<noteq> razorpay_signature pd"
    proof
      assume "(razorpay_signature pd)[i := c] = razorpay_signature pd"
      then have "(razorpay_signature pd)[i := c] ! i = razorpay_signature pd ! i" by simp
      with i ne show False by simp
    qed
    have n: "(razorpay_signature pd)[i := c] \<noteq> []" using i by auto
    show ?thesis
      using verifyPayment_cases(2)[of ps ?pd ord hmac t] assms v d n by simp
  qed
  show ?thesis using a c(2) m by blast
qed

lemma demo_signature:
  "demoHmac (keySecret demoService)
     (razorpay_order_id demoPayment @ ''|'' @ razorpay_payment_id demoPayment)
   = razorpay_signature demoPayment"
  by (simp add: demoHmac_def demoService_def demoPayment_def)

theorem verify_iff_signature_witness:
  "orders demoService (razorpay_order_id demoPayment) = Some demoOrder
   \<and> (\<exists>r ps'. verifyPayment demoHmac 9 demoPayment demoService = (Inr r, ps'))
   \<and> verifyPayment demoHmac 9 (demoPayment\<lparr>razorpay_signature := ''2_yap|1_redrok''\<rparr>) demoService
       = (Inl InvalidSignature, demoService)"
proof -
  have o: "orders demoService (razorpay_order_id demoPayment) = Some demoOrder"
    by (simp add: demoService_def demoPayment_def)
  have f: "razorpay_order_id demoPayment \<noteq> []" "razorpay_payment_id demoPayment \<noteq> []"
    "razorpay_signature demoPayment \<noteq> []"
    by (simp_all add: demoPayment_def)
  note t = verify_iff_signature[OF o f, of demoHmac 9]
  have i: "(0::nat) < length (razorpay_signature demoPayment)
           \<and> CHR ''2'' \<noteq> razorpay_signature demoPayment ! 0"
    by (simp add: demoPayment_def)
  have u: "(razorpay_signature demoPayment)[0 := CHR ''2''] = ''2_yap|1_redrok''"
    by (simp add: demoPayment_def)
  from t demo_signature i
  have "verifyPayment demoHmac 9
          (demoPayment\<lparr>razorpay_signature := (razorpay_signature demoPayment)[0 := CHR ''2'']\<rparr>)
          demoService = (Inl InvalidSignature, demoService)"
    by blast
  then show ?thesis using t demo_signature o by (simp add: u)
qed

section \<open>Reporting a payment failure\<close>

text \<open>
  X1. With an \<open>errorData\<close> other than \<open>undefined\<close> and \<open>null\<close> the function returns
  normally, for a known and for an unknown order, and its reply carries the \<open>errorData\<close>.
\<close>

lemma handlePaymentFailure_reported:
  "fst (handlePaymentFailure t orderId (ErrorInfo d) ps) = Inr (ErrorInfo d)"
  by (simp add: handlePaymentFailure_def Let_def)

lemma handlePaymentFailure_unknown:
  "orders ps orderId = None \<Longrightarrow> snd (handlePaymentFailure t orderId err ps) = ps"
  by (simp add: handlePaymentFailure_def Let_def split: errorData.splits)

lemma handlePaymentFailure_marks:
  "orders ps orderId = Some ord \<Longrightarrow>
   orders (snd (handlePaymentFailure t orderId err ps)) orderId =
     Some (ord\<lparr>o_status := ''failed'', o_error := Some err, o_failedAt := Some t\<rparr>)"
  by (simp add: handlePaymentFailure_def Let_def split: errorData.splits)

text \<open>
  X2. Reporting the same failure again leaves the stores as one report at the later
  time does: status and error stay, only \<open>failedAt\<close> is renewed.
\<close>

lemma handlePaymentFailure_again:
  "snd (handlePaymentFailure t' orderId err (snd (handlePaymentFailure t orderId err ps)))
     = snd (handlePaymentFailure t' orderId err ps)"
  by (cases "orders ps orderId")
     (simp_all add: handlePaymentFailure_def Let_def split: errorData.splits)

text \<open>
  C9 at \<open>errorData = undefined\<close>: \<open>handlePaymentFailure\<close> marks the known order failed and
  then throws the \<open>TypeError\<close> of reading \<open>errorData.description\<close>.
\<close>

theorem handlePaymentFailure_throws:
  "handlePaymentFailure 3 ''order_1'' Nullish demoService =
     (Inl TypeError,
      demoService\<lparr>orders := [''order_1'' \<mapsto>
         demoOrder\<lparr>o_status := ''failed'', o_error := Some Nullish, o_failedAt := Some 3\<rparr>]\<rparr>)"
  by (simp add: handlePaymentFailure_def Let_def demoService_def)

section \<open>The session windows\<close>

lemma sliceLast_short: "length xs \<le> n \<Longrightarrow> sliceLast n xs = xs"
  by (simp add: sliceLast_def)

lemma sliceLast_rev: "sliceLast n xs = rev (take n (rev xs))"
  by (simp add: sliceLast_def rev_take)

lemma sliceLast_append: "sliceLast n (sliceLast n xs @ ys) = sliceLast n (xs @ ys)"
  by (simp add: sliceLast_rev take_append min_def)

lemma length_sliceLast: "length (sliceLast n xs) = min n (length xs)"
  by (simp add: sliceLast_def)

lemma recordExchange_messages:
  "messages (recordExchange t message response cl ses)
     = sliceLast 10 (messages ses @ [entryOf (t, message, response, cl)])"
  by (simp add: recordExchange_def Let_def entryOf_def sliceLast_short)

lemma recordExchanges_messages:
  "length (messages ses) \<le> 10 \<Longrightarrow>
   messages (recordExchanges xs ses) = sliceLast 10 (messages ses @ map entryOf xs)"
proof (induction xs arbitrary: ses)
  case Nil
  then show ?case by (simp add: sliceLast_short)
next
  case (Cons x xs)
  obtain t message response cl where x: "x = (t, message, response, cl)" by (cases x)
  have "length (messages (recordExchange t message response cl ses)) \<le> 10"
    by (simp add: recordExchange_messages length_sliceLast)
  from Cons.IH[OF this] show ?case
    by (simp add: x recordExchange_messages sliceLast_append)
qed

lemma length_js_split: "length (js_split sep s) = Suc (count_list s sep)"
  by (induction s) (auto split: list.splits)

lemma count_js_join:
  "count_list (js_join sep ps) sep
     = (length ps - 1) + sum_list (map (\<lambda>p. count_list p sep) ps)"
  by (induction sep ps rule: js_join.induct) auto

lemma js_split_pieces: "p \<in> set (js_split sep s) \<Longrightarrow> sep \<notin> set p"
  by (induction s arbitrary: p) (auto split: if_splits list.splits)

lemma sum_count_zero:
  "(\<And>p. p \<in> set ps \<Longrightarrow> sep \<notin> set p) \<Longrightarrow> sum_list (map (\<lambda>p. count_list p sep) ps) = 0"
  by (induction ps) auto

lemma set_sliceLast: "set (sliceLast n xs) \<subseteq> set xs"
  by (simp add: sliceLast_def set_drop_subset)

lemma trimmed_lines:
  "length (js_split sep (js_join sep (sliceLast n (js_split sep s)))) \<le> max n 1"
proof -
  let ?ps = "sliceLast n (js_split sep s)"
  have z: "sum_list (map (\<lambda>p. count_list p sep) ?ps) = 0"
  proof (rule sum_count_zero)
    fix p assume "p \<in> set ?ps"
    then have "p \<in> set (js_split sep s)" using set_sliceLast[of n "js_split sep s"] by blast
    then show "sep \<notin> set p" by (rule js_split_pieces)
  qed
  have "length (js_split sep (js_join sep ?ps)) = Suc (length ?ps - 1)"
    by (simp add: length_js_split count_js_join z)
  also have "\<dots> \<le> max n 1" by (simp add: length_sliceLast)
  finally show ?thesis .
qed

lemma recordExchange_trims:
  "length (messages ses) \<ge> 10 \<Longrightarrow>
   length (js_split newline (contextText (recordExchange t message response cl ses))) \<le> 20"
  using trimmed_lines[of newline 20]
  by (simp add: recordExchange_def Let_def)

lemma recordExchanges_snoc:
  "recordExchanges (xs @ [(t, message, response, cl)]) ses
     = recordExchange t message response cl (recordExchanges xs ses)"
  by (induction xs arbitrary: ses) auto

lemma js_split_nosep: "sep \<notin> set p \<Longrightarrow> js_split sep p = [p]"
  by (induction p) auto

lemma js_split_append: "sep \<notin> set p \<Longrightarrow> js_split sep (p @ sep # r) = p # js_split sep r"
  by (induction p) auto

lemma js_split_join:
  "ps \<noteq> [] \<Longrightarrow> (\<And>p. p \<in> set ps \<Longrightarrow> sep \<notin> set p) \<Longrightarrow> js_split sep (js_join sep ps) = ps"
  by (induction sep ps rule: js_join.induct) (auto simp: js_split_nosep js_split_append)

lemma js_split_nonempty: "js_split sep s \<noteq> []"
  by (cases s) (auto split: list.splits)

lemma split_of_cut:
  "js_split sep (js_join sep (sliceLast 20 (js_split sep s))) = sliceLast 20 (js_split sep s)"
proof (rule js_split_join)
  have "length (sliceLast 20 (js_split sep s)) = min 20 (length (js_split sep s))"
    by (rule length_sliceLast)
  moreover have "length (js_split sep s) > 0" using js_split_nonempty[of sep s] by simp
  ultimately have "length (sliceLast 20 (js_split sep s)) > 0" by simp
  then show "sliceLast 20 (js_split sep s) \<noteq> []" by auto
next
  fix p assume "p \<in> set (sliceLast 20 (js_split sep s))"
  then have "p \<in> set (js_split sep s)" using set_sliceLast[of 20 "js_split sep s"] by blast
  then show "sep \<notin> set p" by (rule js_split_pieces)
qed

lemma recordExchange_context:
  "contextText (recordExchange t message response cl ses) =
     (if length (messages ses) \<ge> 10
      then js_join newline (sliceLast 20
             (js_split newline (contextText ses @ exchangeText (t, message, response, cl))))
      else contextText ses @ exchangeText (t, message, response, cl))"
  by (simp add: recordExchange_def Let_def exchangeText_def)

lemma recordExchanges_uncut:
  "length (messages ses) + length xs \<le> 10 \<Longrightarrow>
   contextText (recordExchanges xs ses) = contextText ses @ concat (map exchangeText xs)"
proof (induction xs arbitrary: ses)
  case Nil
  then show ?case by simp
next
  case (Cons x xs)
  obtain t message response cl where x: "x = (t, message, response, cl)" by (cases x)
  from Cons.prems have l: "length (messages ses) < 10" by simp
  then have "length (messages (recordExchange t message response cl ses)) = length (messages ses) + 1"
    by (simp add: recordExchange_messages length_sliceLast)
  with Cons.prems have "length (messages (recordExchange t message response cl ses)) + length xs \<le> 10"
    by simp
  from Cons.IH[OF this] l show ?case
    by (simp add: x recordExchange_context)
qed

text \<open>
  C8, as the code has it. In a session that holds at most 10 messages (a new one holds
  none), after any number of successful exchanges the message list is the last 10 of all
  exchanges in their order, so the oldest are dropped first and fewer than 10 are all
  kept. While no more than 10 exchanges are held the context is not cut: it is the old
  context followed by the text of every exchange. Every exchange that leaves more than
  10 messages cuts the context to the last 20 lines of the context before it followed by
  the exchange's text, so that it then has at most 20 lines.
\<close>

theorem session_retention:
  assumes "length (messages ses) \<le> 10"
  shows "messages (recordExchanges xs ses) = sliceLast 10 (messages ses @ map entryOf xs)
       \<and> length (messages (recordExchanges xs ses)) = min 10 (length (messages ses) + length xs)
       \<and> (xs \<noteq> [] \<and> length (messages ses) + length xs > 10 \<longrightarrow>
            length (js_split newline (contextText (recordExchanges xs ses))) \<le> 20)
       \<and> (length (messages ses) + length xs \<le> 10 \<longrightarrow>
            contextText (recordExchanges xs ses) = contextText ses @ concat (map exchangeText xs))
       \<and> (\<forall>ys y. xs = ys @ [y] \<and> length (messages ses) + length xs > 10 \<longrightarrow>
            contextText (recordExchanges xs ses)
              = js_join newline (sliceLast 20
                  (js_split newline (contextText (recordExchanges ys ses) @ exchangeText y)))
            \<and> js_split newline (contextText (recordExchanges xs ses))
              = sliceLast 20
                  (js_split newline (contextText (recordExchanges ys ses) @ exchangeText y)))"
proof -
  note m = recordExchanges_messages[OF assms, of xs]
  have l: "length (messages (recordExchanges xs ses)) = min 10 (length (messages ses) + length xs)"
    by (simp add: m length_sliceLast)
  have cut: "contextText (recordExchanges (ys @ [y]) ses)
              = js_join newline (sliceLast 20
                  (js_split newline (contextText (recordExchanges ys ses) @ exchangeText y)))"
    if big: "length (messages ses) + length (ys @ [y]) > 10" for ys y
  proof -
    obtain t message response cl where y: "y = (t, message, response, cl)" by (cases y)
    have "length (messages (recordExchanges ys ses)) = min 10 (length (messages ses) + length ys)"
      by (simp add: recordExchanges_messages[OF assms] length_sliceLast)
    with big have "length (messages (recordExchanges ys ses)) \<ge> 10" by simp
    then show ?thesis
      by (simp add: y recordExchanges_snoc recordExchange_context)
  qed
  have c: "length (js_split newline (contextText (recordExchanges xs ses))) \<le> 20"
    if ne: "xs \<noteq> []" and big: "length (messages ses) + length xs > 10"
  proof -
    from ne obtain ys y where xs: "xs = ys @ [y]" by (cases xs rule: rev_cases) auto
    from cut[of ys y] big xs show ?thesis
      by (simp add: split_of_cut length_sliceLast)
  qed
  have u: "contextText (recordExchanges xs ses) = contextText ses @ concat (map exchangeText xs)"
    if "length (messages ses) + length xs \<le> 10"
    using that by (rule recordExchanges_uncut)
  have e: "contextText (recordExchanges xs ses)
              = js_join newline (sliceLast 20
                  (js_split newline (contextText (recordExchanges ys ses) @ exchangeText y)))
            \<and> js_split newline (contextText (recordExchanges xs ses))
              = sliceLast 20
                  (js_split newline (contextText (recordExchanges ys ses) @ exchangeText y))"
    if "xs = ys @ [y]" "length (messages ses) + length xs > 10" for ys y
    using cut[of ys y] that by (simp add: split_of_cut)
  show ?thesis using m l c u e by blast
qed

theorem session_retention_witness:
  "length (messages (newSession demoEnv)) \<le> 10
   \<and> messages (recordExchanges (map numbered [0..<15]) (newSession demoEnv))
       = map (entryOf \<circ> numbered) [5..<15]
   \<and> length (messages (recordExchanges (map numbered [0..<15]) (newSession demoEnv))) = 10
   \<and> length (js_split newline
        (contextText (recordExchanges (map numbered [0..<15]) (newSession demoEnv)))) \<le> 20
   \<and> js_split newline
        (contextText (recordExchanges (map numbered [0..<15]) (newSession demoEnv)))
       = sliceLast 20 (js_split newline
           (contextText (recordExchanges (map numbered [0..<14]) (newSession demoEnv))
            @ exchangeText (numbered 14)))
   \<and> js_split newline
        (contextText (recordExchanges (map numbered [0..<15]) (newSession demoEnv)))
       = [''Bot: ok'', ''User: qxxxxxx'', ''Bot: ok'', ''User: qxxxxxxx'',
          ''Bot: ok'', ''User: qxxxxxxxx'', ''Bot: ok'', ''User: qxxxxxxxxx'',
          ''Bot: ok'', ''User: qxxxxxxxxxx'', ''Bot: ok'', ''User: qxxxxxxxxxxx'',
          ''Bot: ok'', ''User: qxxxxxxxxxxxx'', ''Bot: ok'',
          ''User: qxxxxxxxxxxxxx'', ''Bot: ok'', ''User: qxxxxxxxxxxxxxx'',
          ''Bot: ok'', []]
   \<and> contextText (recordExchanges (map numbered [0..<3]) (newSession demoEnv))
       = concat (map exchangeText (map numbered [0..<3]))"
proof -
  have h: "length (messages (newSession demoEnv)) \<le> 10" by (simp add: newSession_def)
  have e: "messages (newSession demoEnv) = []" "contextText (newSession demoEnv) = []"
    by (simp_all add: newSession_def)
  have d: "sliceLast 10 (map entryOf (map numbered [0..<15]))
           = map (entryOf \<circ> numbered) [5..<15]"
    by (simp add: sliceLast_def drop_map)
  have s: "map numbered [0..<15] = map numbered [0..<14] @ [numbered 14]"
    by code_simp
  note t15 = session_retention[OF h, of "map numbered [0..<15]"]
  note t3 = session_retention[OF h, of "map numbered [0..<3]"]
  have big: "length (messages (newSession demoEnv)) + length (map numbered [0..<15]) > 10"
    by (simp add: e)
  note q = t15[THEN conjunct2, THEN conjunct2, THEN conjunct2, THEN conjunct2, rule_format,
      OF conjI[OF s big]]
  note c = q[THEN conjunct2]
  have v: "js_split newline
        (contextText (recordExchanges (map numbered [0..<15]) (newSession demoEnv)))
       = [''Bot: ok'', ''User: qxxxxxx'', ''Bot: ok'', ''User: qxxxxxxx'',
          ''Bot: ok'', ''User: qxxxxxxxx'', ''Bot: ok'', ''User: qxxxxxxxxx'',
          ''Bot: ok'', ''User: qxxxxxxxxxx'', ''Bot: ok'', ''User: qxxxxxxxxxxx'',
          ''Bot: ok'', ''User: qxxxxxxxxxxxx'', ''Bot: ok'',
          ''User: qxxxxxxxxxxxxx'', ''Bot: ok'', ''User: qxxxxxxxxxxxxxx'',
          ''Bot: ok'', []]"
    by code_simp
  have u: "contextText (recordExchanges (map numbered [0..<3]) (newSession demoEnv))
       = concat (map exchangeText (map numbered [0..<3]))"
    using t3 by (simp add: e)
  have m: "messages (recordExchanges (map numbered [0..<15]) (newSession demoEnv))
       = map (entryOf \<circ> numbered) [5..<15]
     \<and> length (messages (recordExchanges (map numbered [0..<15]) (newSession demoEnv))) = 10
     \<and> length (js_split newline
        (contextText (recordExchanges (map numbered [0..<15]) (newSession demoEnv)))) \<le> 20"
    using t15 d by (simp add: e)
  show ?thesis using h m c v u by blast
qed

text \<open>
  C8 as stated fails: after one exchange whose reply has 24 lines the message list holds
  one exchange and the context holds 27 lines.
\<close>

theorem session_retention_counterexample:
  "length (messages (recordExchanges [(0, ''hi'', longReply, demoClassification)]
             (newSession demoEnv))) = 1
   \<and> length (js_split newline
        (contextText (recordExchanges [(0, ''hi'', longReply, demoClassification)]
           (newSession demoEnv)))) = 27"
proof -
  have c: "contextText (recordExchanges [(0, ''hi'', longReply, demoClassification)]
             (newSession demoEnv))
           = ''User: hi'' @ [newline] @ ''Bot: '' @ longReply @ [newline]"
    by (simp add: recordExchange_def newSession_def Let_def)
  have n: "count_list (''User: hi'' @ [newline] @ ''Bot: '' @ longReply @ [newline]) newline = 26"
    by code_simp
  have m: "length (messages (recordExchanges [(0, ''hi'', longReply, demoClassification)]
             (newSession demoEnv))) = 1"
    by (simp add: recordExchange_def newSession_def Let_def)
  show ?thesis using m by (simp only: c length_js_split n) simp
qed

end
